theory Spec2Isabelle
  imports Complex_Main "HOL-Library.Multiset"
begin

section \<open>Rectangles and the proximity predicate\<close>

text \<open>
  The detection code of \<^verbatim>\<open>extracting_highlights_images.py\<close> works on tuples of four
  Python integers.  \<^verbatim>\<open>merge_nearby_rectangles\<close> receives them as \<open>(x, y, w, h)\<close> and
  converts them to corner form \<open>(x1, y1, x2, y2)\<close>; both forms are quadruples of unbounded
  integers.
\<close>

type_synonym rect = "int \<times> int \<times> int \<times> int"

text \<open>
  \<^verbatim>\<open>rectangles_should_merge(rect1, rect2, horizontal_threshold, vertical_threshold)\<close>,
  both rectangles in corner form.
\<close>

definition rectangles_should_merge :: "rect \<Rightarrow> rect \<Rightarrow> int \<Rightarrow> int \<Rightarrow> bool" where
  "rectangles_should_merge rect1 rect2 horizontal_threshold vertical_threshold =
     (case rect1 of (x1_1, y1_1, x2_1, y2_1) \<Rightarrow>
      case rect2 of (x1_2, y1_2, x2_2, y2_2) \<Rightarrow>
        let h_overlap = \<not> (x2_1 < x1_2 - horizontal_threshold \<or> x2_2 < x1_1 - horizontal_threshold);
            v_overlap = \<not> (y2_1 < y1_2 - vertical_threshold \<or> y2_2 < y1_1 - vertical_threshold)
        in h_overlap \<and> v_overlap)"

text \<open>
  Two corner-form rectangles overlap geometrically when neither lies strictly to one side
  of the other on either axis (closed extents).
\<close>

definition geometric_overlap :: "rect \<Rightarrow> rect \<Rightarrow> bool" where
  "geometric_overlap a b =
     (case a of (ax0, ay0, ax1, ay1) \<Rightarrow>
      case b of (bx0, by0, bx1, by1) \<Rightarrow>
        \<not> (ax1 < bx0 \<or> bx1 < ax0 \<or> ay1 < by0 \<or> by1 < ay0))"

section \<open>Region merging\<close>

text \<open>
  The three nested loops of \<^verbatim>\<open>merge_nearby_rectangles\<close>.  They are written for an
  arbitrary element type and an arbitrary test \<open>P group_rect rect2\<close>, so that the same
  loops can also be run on rectangles tagged with their position; the source's function
  below instantiates \<open>P\<close> with \<open>rectangles_should_merge\<close> at the given thresholds.

  Innermost loop: \<^verbatim>\<open>for group_rect in group: if ...: should_merge = True; break\<close>.
\<close>

fun group_merges :: "('a \<Rightarrow> 'a \<Rightarrow> bool) \<Rightarrow> 'a list \<Rightarrow> 'a \<Rightarrow> bool" where
  "group_merges P [] rect2 = False"
| "group_merges P (group_rect # rest) rect2 =
     (if P group_rect rect2 then True else group_merges P rest rect2)"

text \<open>
  One pass \<^verbatim>\<open>for j, rect2 in enumerate(rects)\<close> of the growth loop, started at index
  \<open>j\<close> on the remaining rectangles, with the loop state \<open>(group, used, changed)\<close>.
  Reading or writing \<^verbatim>\<open>used[j]\<close> beyond the end of the list raises \<^verbatim>\<open>IndexError\<close> in
  Python; that outcome is \<open>None\<close>.
\<close>

fun scan :: "('a \<Rightarrow> 'a \<Rightarrow> bool) \<Rightarrow> nat \<Rightarrow> 'a list \<Rightarrow> 'a list \<times> bool list \<times> bool
               \<Rightarrow> ('a list \<times> bool list \<times> bool) option" where
  "scan P j [] st = Some st"
| "scan P j (rect2 # rest) (grp, used, changed) =
     (if j < length used then
        (if used ! j then scan P (Suc j) rest (grp, used, changed)
         else if group_merges P grp rect2
              then scan P (Suc j) rest (grp @ [rect2], used[j := True], True)
              else scan P (Suc j) rest (grp, used, changed))
      else None)"

text \<open>The number of rectangles not yet claimed by a group: the measure of the growth loop.\<close>

definition unclaimed :: "bool list \<Rightarrow> nat" where
  "unclaimed used = length (filter Not used)"

lemma unclaimed_update:
  "j < length used \<Longrightarrow> \<not> used ! j \<Longrightarrow> unclaimed (used[j := True]) < unclaimed used"
proof (induction used arbitrary: j)
  case Nil
  then show ?case by simp
next
  case (Cons u used)
  then show ?case
    by (cases j) (auto simp: unclaimed_def)
qed

lemma scan_unclaimed:
  "scan P j rest (grp, used, changed) = Some (grp', used', changed') \<Longrightarrow>
     length used' = length used \<and> unclaimed used' \<le> unclaimed used \<and>
     (changed' \<and> \<not> changed \<longrightarrow> unclaimed used' < unclaimed used)"
proof (induction rest arbitrary: j grp used changed)
  case Nil
  then show ?case by simp
next
  case (Cons r rest)
  show ?case
  proof (cases "j < length used")
    case False
    with Cons.prems show ?thesis by simp
  next
    case inr: True
    show ?thesis
    proof (cases "\<not> used ! j \<and> group_merges P grp r")
      case True
      with inr Cons.prems
      have "scan P (Suc j) rest (grp @ [r], used[j := True], True) = Some (grp', used', changed')"
        by simp
      from Cons.IH [OF this] unclaimed_update [of j used] inr True show ?thesis
        by auto
    next
      case False
      with inr Cons.prems
      have "scan P (Suc j) rest (grp, used, changed) = Some (grp', used', changed')"
        by (auto split: if_splits)
      from Cons.IH [OF this] show ?thesis .
    qed
  qed
qed

text \<open>
  The growth loop \<^verbatim>\<open>changed = True; while changed: changed = False; for j, rect2 ...\<close>.
  It ends because every pass that sets \<open>changed\<close> claims at least one more rectangle.
\<close>

function grow :: "('a \<Rightarrow> 'a \<Rightarrow> bool) \<Rightarrow> 'a list \<Rightarrow> 'a list \<Rightarrow> bool list
                   \<Rightarrow> ('a list \<times> bool list) option" where
  "grow P rects grp used =
     (case scan P 0 rects (grp, used, False) of
        None \<Rightarrow> None
      | Some (grp', used', changed) \<Rightarrow>
          if changed then grow P rects grp' used' else Some (grp', used'))"
  by pat_completeness auto
termination
proof (relation "measure (\<lambda>(P, rects, grp, used). unclaimed used)")
  show "wf (measure (\<lambda>(P, rects, grp, used). unclaimed used))" by simp
next
  fix P :: "'a \<Rightarrow> 'a \<Rightarrow> bool" and rects grp :: "'a list" and used x2 grp' y used' changed
  assume "scan P 0 rects (grp, used, False) = Some x2" "(grp', y) = x2"
    "(used', changed) = y" "changed"
  then have "scan P 0 rects (grp, used, False) = Some (grp', used', True)" by simp
  from scan_unclaimed [OF this]
  show "((P, rects, grp', used'), (P, rects, grp, used))
          \<in> measure (\<lambda>(P, rects, grp, used). unclaimed used)"
    by simp
qed

declare grow.simps [simp del]

text \<open>
  The outer loop \<^verbatim>\<open>for i, rect1 in enumerate(rects)\<close> with the state \<open>(merged, used)\<close>;
  \<open>f\<close> is what is appended to \<open>merged\<close> for a finished group (the source appends the
  group's bounding box).
\<close>

fun merge_loop :: "('a \<Rightarrow> 'a \<Rightarrow> bool) \<Rightarrow> ('a list \<Rightarrow> 'b) \<Rightarrow> 'a list \<Rightarrow> nat \<Rightarrow> 'a list
                     \<Rightarrow> 'b list \<times> bool list \<Rightarrow> ('b list) option" where
  "merge_loop P f rects i [] (merged, used) = Some merged"
| "merge_loop P f rects i (rect1 # rest) (merged, used) =
     (if i < length used then
        (if used ! i then merge_loop P f rects (Suc i) rest (merged, used)
         else case grow P rects [rect1] (used[i := True]) of
                None \<Rightarrow> None
              | Some (grp, used') \<Rightarrow> merge_loop P f rects (Suc i) rest (merged @ [f grp], used'))
      else None)"

text \<open>
  Lines 221--226: the bounding box of a group of corner-form rectangles, returned in
  \<open>(x, y, w, h)\<close> form.  A group always holds the rectangle it was started from, so
  Python's \<^verbatim>\<open>min\<close> and \<^verbatim>\<open>max\<close> never see an empty sequence.
\<close>

definition bounding_box :: "rect list \<Rightarrow> rect" where
  "bounding_box grp =
     (let min_x = Min (set (map (\<lambda>(x1, y1, x2, y2). x1) grp));
          min_y = Min (set (map (\<lambda>(x1, y1, x2, y2). y1) grp));
          max_x = Max (set (map (\<lambda>(x1, y1, x2, y2). x2) grp));
          max_y = Max (set (map (\<lambda>(x1, y1, x2, y2). y2) grp))
      in (min_x, min_y, max_x - min_x, max_y - min_y))"

text \<open>
  Line 187: the conversion of the \<open>(x, y, w, h)\<close> input to corner form.
\<close>

definition to_corners :: "rect list \<Rightarrow> rect list" where
  "to_corners rectangles = map (\<lambda>(x, y, w, h). (x, y, x + w, y + h)) rectangles"

text \<open>
  \<^verbatim>\<open>merge_nearby_rectangles(rectangles, horizontal_threshold, vertical_threshold)\<close>:
  input and output rectangles are in \<open>(x, y, w, h)\<close> form.  \<open>None\<close> stands for an
  \<^verbatim>\<open>IndexError\<close>; \<open>merge_nearby_rectangles_returns\<close> below shows that it never occurs.
\<close>

definition merge_nearby_rectangles :: "rect list \<Rightarrow> int \<Rightarrow> int \<Rightarrow> rect list option" where
  "merge_nearby_rectangles rectangles horizontal_threshold vertical_threshold =
     (if rectangles = [] then Some []
      else
        let rects = to_corners rectangles
        in merge_loop (\<lambda>group_rect rect2.
                         rectangles_should_merge group_rect rect2 horizontal_threshold vertical_threshold)
             bounding_box rects 0 rects ([], replicate (length rects) False))"

text \<open>
  The groups themselves, before their bounding boxes are taken: the same run with the
  finished group appended in place of its bounding box.  \<open>merge_nearby_rectangles_groups\<close>
  below shows that \<open>merge_nearby_rectangles\<close> returns the bounding boxes of these groups.
\<close>

definition merge_groups :: "rect list \<Rightarrow> int \<Rightarrow> int \<Rightarrow> rect list list option" where
  "merge_groups rectangles horizontal_threshold vertical_threshold =
     (if rectangles = [] then Some []
      else
        let rects = to_corners rectangles
        in merge_loop (\<lambda>group_rect rect2.
                         rectangles_should_merge group_rect rect2 horizontal_threshold vertical_threshold)
             (\<lambda>grp. grp) rects 0 rects ([], replicate (length rects) False))"

text \<open>
  Geometric containment: of a corner-form rectangle in a box given as \<open>(x, y, w, h)\<close>,
  and of one \<open>(x, y, w, h)\<close> rectangle in another.
\<close>

definition box_covers :: "rect \<Rightarrow> rect \<Rightarrow> bool" where
  "box_covers b c =
     (case b of (bx, by, bw, bh) \<Rightarrow> case c of (x1, y1, x2, y2) \<Rightarrow>
        bx \<le> x1 \<and> by \<le> y1 \<and> x2 \<le> bx + bw \<and> y2 \<le> by + bh)"

definition rect_inside :: "rect \<Rightarrow> rect \<Rightarrow> bool" where
  "rect_inside r b =
     (case r of (x, y, w, h) \<Rightarrow> case b of (bx, by, bw, bh) \<Rightarrow>
        bx \<le> x \<and> by \<le> y \<and> x + w \<le> bx + bw \<and> y + h \<le> by + bh)"

text \<open>
  How a group and the flags can differ after some passes of the growth loop: the flags
  list keeps its length, the group has grown by rectangles of the input, no flag is
  reset, and every newly set flag belongs to a rectangle now in the group.
\<close>

definition claims_more :: "'a list \<Rightarrow> 'a list \<Rightarrow> bool list \<Rightarrow> 'a list \<Rightarrow> bool list \<Rightarrow> bool" where
  "claims_more xs g u g1 u1 \<longleftrightarrow>
     length u1 = length u \<and> (\<exists>add. g1 = g @ add \<and> set add \<subseteq> set xs) \<and>
     (\<forall>j<length xs. u ! j \<longrightarrow> u1 ! j) \<and>
     (\<forall>j<length xs. u1 ! j \<longrightarrow> u ! j \<or> xs ! j \<in> set g1)"

text \<open>
  No returned group satisfies the merge predicate against another returned group: the
  predicate fails for every two positions of the list (given from the earlier to the later
  one; the predicate is symmetric).
\<close>

definition groups_apart :: "rect list \<Rightarrow> int \<Rightarrow> int \<Rightarrow> bool" where
  "groups_apart merged horizontal_threshold vertical_threshold =
     sorted_wrt (\<lambda>a b. \<not> rectangles_should_merge a b horizontal_threshold vertical_threshold)
       (to_corners merged)"

text \<open>
  The graph that merging works on: two rectangles of the input are linked when the test
  holds for them, and the component of a rectangle is everything reachable from it.
\<close>

definition link :: "('a \<Rightarrow> 'a \<Rightarrow> bool) \<Rightarrow> 'a set \<Rightarrow> ('a \<times> 'a) set" where
  "link P X = {(a, b). a \<in> X \<and> b \<in> X \<and> P a b}"

definition component :: "('a \<Rightarrow> 'a \<Rightarrow> bool) \<Rightarrow> 'a set \<Rightarrow> 'a \<Rightarrow> 'a set" where
  "component P X a = (link P X)\<^sup>* `` {a}"

text \<open>
  The invariants of the loops on an input without repeated entries: the flags mark exactly
  the rectangles of a set \<open>S\<close>; a growing group, started from \<open>s\<close> while the rectangles
  of \<open>D\<close> were already claimed, stays inside the component of \<open>s\<close>; and the finished groups
  are distinct components.
\<close>

definition flags_ok :: "'a list \<Rightarrow> bool list \<Rightarrow> 'a set \<Rightarrow> bool" where
  "flags_ok xs u S \<longleftrightarrow> length u = length xs \<and> (\<forall>k<length xs. u ! k \<longleftrightarrow> xs ! k \<in> S)"

definition growing ::
  "('a \<Rightarrow> 'a \<Rightarrow> bool) \<Rightarrow> 'a list \<Rightarrow> 'a set \<Rightarrow> 'a \<Rightarrow> 'a list \<Rightarrow> bool list \<Rightarrow> bool" where
  "growing P xs D s g u \<longleftrightarrow>
     flags_ok xs u (D \<union> set g) \<and> distinct g \<and> D \<inter> set g = {} \<and> s \<in> set g \<and>
     set g \<subseteq> set xs \<and> set g \<subseteq> component P (set xs) s"

definition grouped :: "('a \<Rightarrow> 'a \<Rightarrow> bool) \<Rightarrow> 'a list \<Rightarrow> nat \<Rightarrow> 'a list list \<Rightarrow> bool list \<Rightarrow> bool" where
  "grouped P xs k m u \<longleftrightarrow>
     flags_ok xs u (\<Union>(set ` set m)) \<and> (\<forall>j<k. j < length xs \<longrightarrow> u ! j) \<and>
     (\<forall>g\<in>set m. distinct g \<and> (\<exists>s\<in>set xs. set g = component P (set xs) s)) \<and>
     distinct (map set m)"

section \<open>Page images, crops and extraction records\<close>

text \<open>
  Of a rendered page only its shape matters here: \<^verbatim>\<open>page_img.shape[0]\<close> is the height
  and \<^verbatim>\<open>page_img.shape[1]\<close> the width; the third axis holds the three colour channels.
\<close>

record page_img =
  img_height :: nat
  img_width :: nat

text \<open>
  NumPy's basic slice \<^verbatim>\<open>a[i:j]\<close> along an axis of length \<open>n\<close>: a negative bound counts
  from the end, every bound is then cut to \<open>[0, n]\<close>, and the slice is empty when the
  stop does not exceed the start.  \<^verbatim>\<open>extracted_region.size\<close> is the product of the three
  axis lengths of \<^verbatim>\<open>page_img[y1:y2, x1:x2]\<close>.
\<close>

definition slice_bound :: "int \<Rightarrow> int \<Rightarrow> int" where
  "slice_bound n i = (if i < 0 then max 0 (n + i) else min n i)"

definition slice_len :: "int \<Rightarrow> int \<Rightarrow> int \<Rightarrow> int" where
  "slice_len n i j = max 0 (slice_bound n j - slice_bound n i)"

definition region_size :: "page_img \<Rightarrow> int \<Rightarrow> int \<Rightarrow> int \<Rightarrow> int \<Rightarrow> int" where
  "region_size page_img y1 y2 x1 x2 =
     slice_len (int (img_height page_img)) y1 y2 * slice_len (int (img_width page_img)) x1 x2 * 3"

text \<open>Decimal rendering of a number inside an f-string, and \<^verbatim>\<open>os.path.join\<close> of two parts.\<close>

fun str_nat :: "nat \<Rightarrow> string" where
  "str_nat n = (if n < 10 then [''0123456789'' ! n]
                else str_nat (n div 10) @ [''0123456789'' ! (n mod 10)])"

declare str_nat.simps [simp del]

definition path_join :: "string \<Rightarrow> string \<Rightarrow> string" where
  "path_join dir name =
     (if dir = [] then name
      else if last dir = CHR ''/'' then dir @ name
      else dir @ ''/'' @ name)"

text \<open>
  The dictionaries appended to \<^verbatim>\<open>extracted_items\<close>.  \<open>coordinates\<close> is
  \<open>(x1, y1, x2, y2)\<close>; the key \<^verbatim>\<open>individual_regions\<close> exists only in the records of the
  colour-detection path.  The effect of \<^verbatim>\<open>cv2.imwrite(filepath, extracted_region)\<close> is
  kept as the pair of the path and the crop rectangle, so that a run yields the list of
  records together with the list of images written.
\<close>

record extracted_item =
  page :: nat
  item_type :: string
  filename :: string
  coordinates :: rect
  individual_regions :: "nat option"

type_synonym outputs = "extracted_item list \<times> (string \<times> rect) list"

text \<open>\<^verbatim>\<open>rectangles_overlap(rect1, rect2)\<close>, both in \<open>(x, y, w, h)\<close> form.\<close>

definition rectangles_overlap :: "rect \<Rightarrow> rect \<Rightarrow> bool" where
  "rectangles_overlap rect1 rect2 =
     (case rect1 of (x1, y1, w1, h1) \<Rightarrow>
      case rect2 of (x2, y2, w2, h2) \<Rightarrow>
        \<not> (x1 + w1 < x2 \<or> x2 + w2 < x1 \<or> y1 + h1 < y2 \<or> y2 + h2 < y1))"

section \<open>Extraction by colour detection\<close>

text \<open>
  Lines 289--293 (and again 340--344): padding and clamping of a merged group
  \<open>(x, y, w, h)\<close>, giving the crop \<open>(x1, y1, x2, y2)\<close>.
\<close>

definition group_crop :: "page_img \<Rightarrow> rect \<Rightarrow> rect" where
  "group_crop page_img r =
     (case r of (x, y, w, h) \<Rightarrow>
        let padding = 15;
            x1 = max 0 (x - padding);
            y1 = max 0 (y - padding);
            x2 = min (int (img_width page_img)) (x + w + padding);
            y2 = min (int (img_height page_img)) (y + h + padding)
        in (x1, y1, x2, y2))"

text \<open>
  The loop \<^verbatim>\<open>for i, (x, y, w, h) in enumerate(merged_yellow)\<close> and its twin for the red
  marks, which differ only in the type name \<open>kind\<close> and in the list \<open>cat_rects\<close> of the
  category's own candidate rectangles that \<^verbatim>\<open>individual_regions\<close> is counted over.
\<close>

fun emit_groups :: "page_img \<Rightarrow> nat \<Rightarrow> string \<Rightarrow> nat \<Rightarrow> string \<Rightarrow> rect list \<Rightarrow> rect list
                      \<Rightarrow> outputs \<Rightarrow> outputs" where
  "emit_groups page_img page_num output_dir start_index kind cat_rects [] out = out"
| "emit_groups page_img page_num output_dir start_index kind cat_rects (r # rest)
       (extracted_items, written) =
     (case group_crop page_img r of (x1, y1, x2, y2) \<Rightarrow>
        if region_size page_img y1 y2 x1 x2 > 0 then
          let filename = ''page_'' @ str_nat (page_num + 1) @ ''_'' @ kind @ ''_''
                           @ str_nat (start_index + length extracted_items + 1) @ ''.png'';
              filepath = path_join output_dir filename
          in emit_groups page_img page_num output_dir start_index kind cat_rects rest
               (extracted_items @
                  [\<lparr>page = page_num + 1, item_type = kind, filename = filename,
                    coordinates = (x1, y1, x2, y2),
                    individual_regions =
                      Some (length (filter (rectangles_overlap r) cat_rects))\<rparr>],
                written @ [(filepath, (x1, y1, x2, y2))])
        else emit_groups page_img page_num output_dir start_index kind cat_rects rest
               (extracted_items, written))"

text \<open>
  \<^verbatim>\<open>extract_by_color_detection\<close>.  The colour masks and contours are computed by OpenCV;
  the model starts from their result, the lists \<open>yellow_rects\<close> and \<open>red_rects\<close> of
  bounding rectangles that passed the area filter (each is only used when its flag is
  set).  The result is the list of records returned and the images written.
\<close>

definition extract_by_color_detection ::
  "page_img \<Rightarrow> nat \<Rightarrow> string \<Rightarrow> nat \<Rightarrow> bool \<Rightarrow> bool \<Rightarrow> rect list \<Rightarrow> rect list \<Rightarrow> outputs option" where
  "extract_by_color_detection page_img page_num output_dir start_index
       extract_highlights extract_handwriting yellow_rects red_rects =
     (case (if extract_highlights then
              (case merge_nearby_rectangles yellow_rects 100 50 of
                 None \<Rightarrow> None
               | Some merged_yellow \<Rightarrow>
                   Some (emit_groups page_img page_num output_dir start_index
                           ''yellow_highlight_group'' yellow_rects merged_yellow ([], [])))
            else Some ([], [])) of
        None \<Rightarrow> None
      | Some out \<Rightarrow>
          if extract_handwriting then
            (case merge_nearby_rectangles red_rects 80 40 of
               None \<Rightarrow> None
             | Some merged_red \<Rightarrow>
                 Some (emit_groups page_img page_num output_dir start_index
                         ''red_mark_group'' red_rects merged_red out))
          else Some out)"

section \<open>Extraction from native annotations\<close>

text \<open>
  The float literals of the colour tests, as the doubles Python reads them
  (\<^verbatim>\<open>0.5\<close> is exact).  Colour components are doubles, hence rationals, and only compared.
\<close>

definition double_0_7 :: real where "double_0_7 = 3152519739159347 / 2 ^ 52"
definition double_0_3 :: real where "double_0_3 = 5404319552844595 / 2 ^ 54"

text \<open>
  A native annotation: its type name \<^verbatim>\<open>annot.type[1]\<close>, its dictionary
  \<^verbatim>\<open>annot.colors\<close> (a value is a list of floats or Python's \<^verbatim>\<open>None\<close>), and its rectangle
  after the conversion to image coordinates of lines 89--92, \<^verbatim>\<open>int(rect.x0 * 3.0)\<close> and so
  on; the floating-point scaling itself is outside the model.
\<close>

record annot =
  type_name :: string
  colors :: "string \<rightharpoonup> real list option"
  pixel_rect :: rect

text \<open>\<^verbatim>\<open>d.get(k, dflt)\<close>, and the test \<^verbatim>\<open>color and len(color) >= 3\<close>.\<close>

definition dict_get :: "('k \<rightharpoonup> 'v) \<Rightarrow> 'k \<Rightarrow> 'v \<Rightarrow> 'v" where
  "dict_get d k dflt = (case d k of Some v \<Rightarrow> v | None \<Rightarrow> dflt)"

definition color_usable :: "real list option \<Rightarrow> bool" where
  "color_usable color = (case color of None \<Rightarrow> False | Some c \<Rightarrow> c \<noteq> [] \<and> 3 \<le> length c)"

definition should_extract_annotation :: "annot \<Rightarrow> string \<Rightarrow> bool \<Rightarrow> bool \<Rightarrow> bool" where
  "should_extract_annotation annot annot_type extract_highlights extract_handwriting =
     (if annot_type \<in> set [''Highlight'', ''Squiggly'', ''StrikeOut'', ''Underline''] then
        if \<not> extract_highlights then False
        else
          let color = dict_get (colors annot) ''stroke''
                        (dict_get (colors annot) ''fill'' (Some [0, 0, 0]))
          in if color_usable color then
               (case take 3 (the color) of
                  [r, g, b] \<Rightarrow> if r > double_0_7 \<and> g > double_0_7 \<and> b < 0.5 then True else False
                | _ \<Rightarrow> False)
             else False
      else if annot_type \<in> set [''Ink'', ''FreeText''] then
        if \<not> extract_handwriting then False
        else
          let color = dict_get (colors annot) ''stroke'' (Some [0, 0, 0])
          in if color_usable color then
               (case take 3 (the color) of
                  [r, g, b] \<Rightarrow>
                    if r > double_0_7 \<and> g < double_0_3 \<and> b < double_0_3 then True else False
                | _ \<Rightarrow> False)
             else False
      else False)"




text \<open>Lines 95--99: padding and clamping of an annotation's rectangle \<open>(x1, y1, x2, y2)\<close>.\<close>

definition annot_crop :: "page_img \<Rightarrow> rect \<Rightarrow> rect" where
  "annot_crop page_img r =
     (case r of (x1, y1, x2, y2) \<Rightarrow>
        let padding = 10;
            x1 = max 0 (x1 - padding);
            y1 = max 0 (y1 - padding);
            x2 = min (int (img_width page_img)) (x2 + padding);
            y2 = min (int (img_height page_img)) (y2 + padding)
        in (x1, y1, x2, y2))"

text \<open>The loop \<^verbatim>\<open>for annot in annotations\<close> of one page, on the document's outputs so far.\<close>

fun annots_loop :: "page_img \<Rightarrow> nat \<Rightarrow> string \<Rightarrow> bool \<Rightarrow> bool \<Rightarrow> annot list \<Rightarrow> outputs \<Rightarrow> outputs" where
  "annots_loop page_img page_num output_dir extract_highlights extract_handwriting [] out = out"
| "annots_loop page_img page_num output_dir extract_highlights extract_handwriting (annot # rest)
       (extracted_items, written) =
     (let annot_type = type_name annot in
      if should_extract_annotation annot annot_type extract_highlights extract_handwriting then
        (case annot_crop page_img (pixel_rect annot) of (x1, y1, x2, y2) \<Rightarrow>
           if region_size page_img y1 y2 x1 x2 > 0 then
             let filename = ''page_'' @ str_nat (page_num + 1) @ ''_'' @ annot_type @ ''_''
                              @ str_nat (length extracted_items + 1) @ ''.png'';
                 filepath = path_join output_dir filename
             in annots_loop page_img page_num output_dir extract_highlights extract_handwriting rest
                  (extracted_items @
                     [\<lparr>page = page_num + 1, item_type = annot_type, filename = filename,
                       coordinates = (x1, y1, x2, y2), individual_regions = None\<rparr>],
                   written @ [(filepath, (x1, y1, x2, y2))])
           else annots_loop page_img page_num output_dir extract_highlights extract_handwriting rest
                  (extracted_items, written))
      else annots_loop page_img page_num output_dir extract_highlights extract_handwriting rest
             (extracted_items, written))"

text \<open>
  A page of the opened document: its rendering (\<open>None\<close> when \<^verbatim>\<open>cv2.imdecode\<close> fails and
  the page is skipped), its annotations, and what the colour detection finds on it.
\<close>

record pdf_page =
  rendered :: "page_img option"
  annotations :: "annot list"
  yellow_found :: "rect list"
  red_found :: "rect list"

fun pages_loop :: "string \<Rightarrow> bool \<Rightarrow> bool \<Rightarrow> nat \<Rightarrow> pdf_page list \<Rightarrow> outputs \<Rightarrow> outputs option" where
  "pages_loop output_dir extract_highlights extract_handwriting page_num [] out = Some out"
| "pages_loop output_dir extract_highlights extract_handwriting page_num (p # rest) out =
     (case rendered p of
        None \<Rightarrow> pages_loop output_dir extract_highlights extract_handwriting (Suc page_num) rest out
      | Some page_img \<Rightarrow>
          (case annots_loop page_img page_num output_dir extract_highlights extract_handwriting
                  (annotations p) out of
             (extracted_items, written) \<Rightarrow>
               (case extract_by_color_detection page_img page_num output_dir (length extracted_items)
                       extract_highlights extract_handwriting (yellow_found p) (red_found p) of
                  None \<Rightarrow> None
                | Some (color_based_extractions, color_written) \<Rightarrow>
                    pages_loop output_dir extract_highlights extract_handwriting (Suc page_num) rest
                      (extracted_items @ color_based_extractions, written @ color_written))))"

text \<open>
  \<^verbatim>\<open>extract_highlights_and_red_annotations\<close>, from the opened document and the two flags
  read from the configuration, up to the list it returns.
\<close>

definition extract_highlights_and_red_annotations ::
  "pdf_page list \<Rightarrow> string \<Rightarrow> bool \<Rightarrow> bool \<Rightarrow> outputs option" where
  "extract_highlights_and_red_annotations doc output_dir extract_highlights extract_handwriting =
     pages_loop output_dir extract_highlights extract_handwriting 0 doc ([], [])"

section \<open>Properties of the proximity predicate\<close>

lemma rectangles_should_merge_iff:
  "rectangles_should_merge (ax0, ay0, ax1, ay1) (bx0, by0, bx1, by1) hT vT \<longleftrightarrow>
     \<not> (ax1 < bx0 - hT \<or> bx1 < ax0 - hT) \<and> \<not> (ay1 < by0 - vT \<or> by1 < ay0 - vT)"
  by (simp add: rectangles_should_merge_def)

lemma rectangles_should_merge_sym:
  "rectangles_should_merge a b hT vT = rectangles_should_merge b a hT vT"
  by (cases a, cases b) (auto simp: rectangles_should_merge_def)

text \<open>
  Claim C1.  For all rectangles \<open>a = (ax0, ay0, ax1, ay1)\<close> and \<open>b\<close> and non-negative
  thresholds, \<open>rectangles_should_merge\<close> holds exactly when
  \<open>\<not> (a.x1 < b.x0 - hThresh \<or> b.x1 < a.x0 - hThresh)\<close> and
  \<open>\<not> (a.y1 < b.y0 - vThresh \<or> b.y1 < a.y0 - vThresh)\<close>; rectangles that overlap
  geometrically satisfy it; and it is symmetric in its two rectangles.
\<close>

theorem C1_merge_predicate:
  assumes "0 \<le> hT" and "0 \<le> vT"
  shows "(rectangles_should_merge (ax0, ay0, ax1, ay1) (bx0, by0, bx1, by1) hT vT \<longleftrightarrow>
            \<not> (ax1 < bx0 - hT \<or> bx1 < ax0 - hT) \<and> \<not> (ay1 < by0 - vT \<or> by1 < ay0 - vT))
       \<and> (geometric_overlap (ax0, ay0, ax1, ay1) (bx0, by0, bx1, by1) \<longrightarrow>
            rectangles_should_merge (ax0, ay0, ax1, ay1) (bx0, by0, bx1, by1) hT vT)
       \<and> (rectangles_should_merge (ax0, ay0, ax1, ay1) (bx0, by0, bx1, by1) hT vT =
            rectangles_should_merge (bx0, by0, bx1, by1) (ax0, ay0, ax1, ay1) hT vT)"
  using assms by (auto simp: rectangles_should_merge_def geometric_overlap_def)

theorem C1_merge_predicate_witness:
  "rectangles_should_merge (0, 0, 10, 10) (5, 5, 20, 20) 3 4
   \<and> geometric_overlap (0, 0, 10, 10) (5, 5, 20, 20)
   \<and> rectangles_should_merge (5, 5, 20, 20) (0, 0, 10, 10) 3 4"
  using C1_merge_predicate [of 3 4 0 0 10 10 5 5 20 20]
  by (auto simp: geometric_overlap_def)

section \<open>Merging through an intermediary\<close>

text \<open>
  Claim C2.  With \<open>A = (0,0,10,10)\<close>, \<open>B = (25,0,35,10)\<close>, \<open>C = (50,0,60,10)\<close> in corner
  form, a horizontal threshold of 20 and any vertical threshold (every non-negative one,
  and in fact every one from \<open>-10\<close> on, the three rectangles having the same vertical
  extent of 10): \<open>A\<close> merges with \<open>B\<close>, \<open>B\<close> merges with \<open>C\<close>, \<open>A\<close> does not merge
  with \<open>C\<close>, and \<open>merge_nearby_rectangles\<close> on the \<open>(x, y, w, h)\<close> forms returns the
  single group \<open>(0, 0, 60, 10)\<close>, whose corners are \<open>(0,0)\<close> and \<open>(60,10)\<close>.
\<close>

theorem C2_intermediary:
  assumes "- 10 \<le> v"
  shows "rectangles_should_merge (0, 0, 10, 10) (25, 0, 35, 10) 20 v
       \<and> rectangles_should_merge (25, 0, 35, 10) (50, 0, 60, 10) 20 v
       \<and> \<not> rectangles_should_merge (0, 0, 10, 10) (50, 0, 60, 10) 20 v
       \<and> to_corners [(0, 0, 10, 10), (25, 0, 10, 10), (50, 0, 10, 10)]
           = [(0, 0, 10, 10), (25, 0, 35, 10), (50, 0, 60, 10)]
       \<and> merge_nearby_rectangles [(0, 0, 10, 10), (25, 0, 10, 10), (50, 0, 10, 10)] 20 v
           = Some [(0, 0, 60, 10)]"
  using assms
  by (simp add: merge_nearby_rectangles_def to_corners_def bounding_box_def
      rectangles_should_merge_def grow.simps)

theorem C2_intermediary_witness:
  "rectangles_should_merge (0, 0, 10, 10) (25, 0, 35, 10) 20 30
   \<and> rectangles_should_merge (25, 0, 35, 10) (50, 0, 60, 10) 20 30
   \<and> \<not> rectangles_should_merge (0, 0, 10, 10) (50, 0, 60, 10) 20 30
   \<and> merge_nearby_rectangles [(0, 0, 10, 10), (25, 0, 10, 10), (50, 0, 10, 10)] 20 30
       = Some [(0, 0, 60, 10)]"
  using C2_intermediary [of 30] by simp

section \<open>The end-to-end scenario\<close>

lemmas color_eval = extract_by_color_detection_def merge_nearby_rectangles_def to_corners_def
  grow.simps
  bounding_box_def rectangles_should_merge_def group_crop_def region_size_def slice_len_def
  slice_bound_def str_nat.simps path_join_def rectangles_overlap_def Let_def


text \<open>
  Claim C3, as amended.  On a page 900 pixels wide and 1200 high whose yellow detection
  yields exactly the rectangles \<open>(100,100)\<close>--\<open>(150,120)\<close> and \<open>(160,100)\<close>--\<open>(210,120)\<close>,
  that is \<open>(100, 100, 50, 20)\<close> and \<open>(160, 100, 50, 20)\<close> in \<open>(x, y, w, h)\<close> form, merging
  with the thresholds 100 and 50 gives the one group \<open>(100, 100, 110, 20)\<close>, and the only
  record emitted (no red marks being extracted) has the coordinates
  \<open>(85,85)\<close>--\<open>(225,135)\<close>, the group padded by 15 pixels on every side, and
  \<open>individual_regions = 2\<close>.
\<close>

theorem C3_end_to_end:
  "merge_nearby_rectangles [(100, 100, 50, 20), (160, 100, 50, 20)] 100 50
     = Some [(100, 100, 110, 20)]
   \<and> extract_by_color_detection \<lparr>img_height = 1200, img_width = 900\<rparr> 0 ''out'' 0 True False
       [(100, 100, 50, 20), (160, 100, 50, 20)] red_rects
     = Some ([\<lparr>page = 1, item_type = ''yellow_highlight_group'',
                filename = ''page_1_yellow_highlight_group_1.png'',
                coordinates = (85, 85, 225, 135), individual_regions = Some 2\<rparr>],
             [(''out/page_1_yellow_highlight_group_1.png'', (85, 85, 225, 135))])
   \<and> extract_by_color_detection \<lparr>img_height = 1200, img_width = 900\<rparr> 0 ''out'' 0 True True
       [(100, 100, 50, 20), (160, 100, 50, 20)] []
     = Some ([\<lparr>page = 1, item_type = ''yellow_highlight_group'',
                filename = ''page_1_yellow_highlight_group_1.png'',
                coordinates = (85, 85, 225, 135), individual_regions = Some 2\<rparr>],
             [(''out/page_1_yellow_highlight_group_1.png'', (85, 85, 225, 135))])"
  by (simp add: color_eval)


text \<open>
  The coordinates \<open>(90,85)\<close>--\<open>(220,135)\<close> that claim C3 states are not the ones of the
  emitted record.
\<close>

theorem C3_claimed_coordinates_counterexample:
  "map_option (map coordinates \<circ> fst)
     (extract_by_color_detection \<lparr>img_height = 1200, img_width = 900\<rparr> 0 ''out'' 0 True True
        [(100, 100, 50, 20), (160, 100, 50, 20)] [])
   \<noteq> Some [(90, 85, 220, 135)]"
  by (simp add: color_eval)

section \<open>The colour lookup for native annotations\<close>









section \<open>Padding, clamping and empty crops\<close>

lemma slice_len_same: "slice_len n i i = 0"
  by (simp add: slice_len_def)

lemma region_size_zero_area:
  "x1 = x2 \<or> y1 = y2 \<Longrightarrow> region_size page_img y1 y2 x1 x2 = 0"
  by (auto simp: region_size_def slice_len_same)




text \<open>
  Claim C8.  A candidate whose clamped crop has \<open>x1 = x2\<close> or \<open>y1 = y2\<close> is skipped by the
  loop of either path: the records and the written images after it are those of the
  remaining candidates alone, and a run on that candidate alone appends no record and
  writes no image.
\<close>

theorem C8_zero_area_skipped:
  "(group_crop page_img r = (x1, y1, x2, y2) \<and> (x1 = x2 \<or> y1 = y2) \<longrightarrow>
      emit_groups page_img page_num output_dir start_index kind cat_rects (r # rest)
          (extracted_items, written)
        = emit_groups page_img page_num output_dir start_index kind cat_rects rest
            (extracted_items, written)
      \<and> emit_groups page_img page_num output_dir start_index kind cat_rects [r]
          (extracted_items, written) = (extracted_items, written))
   \<and> (annot_crop page_img (pixel_rect annot) = (ax1, ay1, ax2, ay2) \<and> (ax1 = ax2 \<or> ay1 = ay2) \<longrightarrow>
      annots_loop page_img page_num output_dir extract_highlights extract_handwriting (annot # rest')
          (extracted_items, written)
        = annots_loop page_img page_num output_dir extract_highlights extract_handwriting rest'
            (extracted_items, written)
      \<and> annots_loop page_img page_num output_dir extract_highlights extract_handwriting [annot]
          (extracted_items, written) = (extracted_items, written))"
  by (simp add: region_size_zero_area Let_def)

theorem C8_zero_area_skipped_witness:
  "group_crop \<lparr>img_height = 1200, img_width = 900\<rparr> (-25, 100, 10, 20) = (0, 85, 0, 135)
   \<and> emit_groups \<lparr>img_height = 1200, img_width = 900\<rparr> 0 ''out'' 0 ''yellow_highlight_group''
        [(-25, 100, 10, 20)] [(-25, 100, 10, 20)] ([], []) = ([], [])
   \<and> should_extract_annotation
        \<lparr>type_name = ''Highlight'', colors = [''stroke'' \<mapsto> Some [1, 1, 0]],
          pixel_rect = (100, 1210, 200, 1400)\<rparr> ''Highlight'' True True
   \<and> annot_crop \<lparr>img_height = 1200, img_width = 900\<rparr> (100, 1210, 200, 1400) = (90, 1200, 210, 1200)
   \<and> annots_loop \<lparr>img_height = 1200, img_width = 900\<rparr> 0 ''out'' True True
        [\<lparr>type_name = ''Highlight'', colors = [''stroke'' \<mapsto> Some [1, 1, 0]],
           pixel_rect = (100, 1210, 200, 1400)\<rparr>] ([], []) = ([], [])"
  using C8_zero_area_skipped [of "\<lparr>img_height = 1200, img_width = 900\<rparr>" "(-25, 100, 10, 20)"
      0 85 0 135 0 "''out''" 0 "''yellow_highlight_group''" "[(-25, 100, 10, 20)]" "[]" "[]" "[]"
      "\<lparr>type_name = ''Highlight'', colors = [''stroke'' \<mapsto> Some [1, 1, 0]],
          pixel_rect = (100, 1210, 200, 1400)\<rparr>" 90 1200 210 1200 True True "[]"]
  by (simp add: group_crop_def annot_crop_def should_extract_annotation_def dict_get_def
      color_usable_def double_0_7_def)

section \<open>Invariant rules for the merging loops\<close>

text \<open>
  Each loop gets a rule in the style of a Hoare rule: a property that holds of the initial
  state and is kept by both branches of the loop body holds of the final state.  The
  growth loop adds that its last pass changed nothing.
\<close>

lemma group_merges_iff: "group_merges P grp r \<longleftrightarrow> (\<exists>g\<in>set grp. P g r)"
  by (induction grp) auto

lemma scan_rule:
  assumes "scan P j (drop j xs) (grp, used, changed) = Some (grp', used', changed')"
    and "j \<le> length xs"
    and "I j grp used changed"
    and skip: "\<And>k g u c. \<lbrakk>k < length xs; k < length u; I k g u c;
                 u ! k \<or> \<not> group_merges P g (xs ! k)\<rbrakk> \<Longrightarrow> I (Suc k) g u c"
    and take: "\<And>k g u c. \<lbrakk>k < length xs; k < length u; I k g u c;
                 \<not> u ! k; group_merges P g (xs ! k)\<rbrakk>
                 \<Longrightarrow> I (Suc k) (g @ [xs ! k]) (u[k := True]) True"
  shows "I (length xs) grp' used' changed'"
  using assms(1,2,3)
proof (induction "length xs - j" arbitrary: j grp used changed)
  case 0
  then have "drop j xs = []" and "j = length xs" by simp_all
  with 0 show ?case by simp
next
  case (Suc d)
  then have jlt: "j < length xs" by simp
  then have dr: "drop j xs = xs ! j # drop (Suc j) xs"
    by (simp add: Cons_nth_drop_Suc)
  have d: "d = length xs - Suc j" using Suc.hyps(2) by simp
  have sj: "Suc j \<le> length xs" using jlt by simp
  show ?case
  proof (cases "j < length used")
    case False
    with Suc.prems dr show ?thesis by simp
  next
    case inr: True
    show ?thesis
    proof (cases "\<not> used ! j \<and> group_merges P grp (xs ! j)")
      case True
      with inr Suc.prems(1) dr
      have sc: "scan P (Suc j) (drop (Suc j) xs) (grp @ [xs ! j], used[j := True], True)
                 = Some (grp', used', changed')"
        by simp
      have "I (Suc j) (grp @ [xs ! j]) (used[j := True]) True"
        using take [OF jlt inr Suc.prems(3)] True by simp
      from Suc.hyps(1) [OF d sc sj this] show ?thesis .
    next
      case False
      with inr Suc.prems(1) dr
      have sc: "scan P (Suc j) (drop (Suc j) xs) (grp, used, changed)
                 = Some (grp', used', changed')"
        by (auto split: if_splits)
      have "I (Suc j) grp used changed"
        using skip [OF jlt inr Suc.prems(3)] False by auto
      from Suc.hyps(1) [OF d sc sj this] show ?thesis .
    qed
  qed
qed

lemma scan_total:
  "j + length rest \<le> length used \<Longrightarrow> \<exists>st'. scan P j rest (grp, used, changed) = Some st'"
  by (induction rest arbitrary: j grp used changed) auto

lemma scan_changed_mono:
  "scan P j rest (grp, used, changed) = Some (grp', used', changed') \<Longrightarrow> changed \<Longrightarrow> changed'"
  by (induction rest arbitrary: j grp used changed) (auto split: if_splits)

lemma scan_unchanged:
  "scan P j rest (grp, used, changed) = Some (grp', used', changed') \<Longrightarrow> \<not> changed'
     \<Longrightarrow> grp' = grp \<and> used' = used"
proof (induction rest arbitrary: j grp used changed)
  case Nil
  then show ?case by simp
next
  case (Cons r rest)
  then show ?case
    by (auto split: if_splits dest: scan_changed_mono)
qed

lemma grow_rule:
  assumes "grow P xs grp used = Some (grp', used')"
    and "J grp used"
    and pass: "\<And>g u g1 u1. \<lbrakk>J g u; scan P 0 xs (g, u, False) = Some (g1, u1, True)\<rbrakk> \<Longrightarrow> J g1 u1"
  shows "J grp' used' \<and> scan P 0 xs (grp', used', False) = Some (grp', used', False)"
  using assms(1,2)
proof (induction "unclaimed used" arbitrary: grp used rule: less_induct)
  case less
  from less.prems(1) obtain g1 u1 c1 where sc: "scan P 0 xs (grp, used, False) = Some (g1, u1, c1)"
    by (subst (asm) grow.simps) (auto split: option.splits)
  show ?case
  proof (cases c1)
    case True
    with sc less.prems(1) have gr: "grow P xs g1 u1 = Some (grp', used')"
      by (subst (asm) grow.simps) simp
    have J1: "J g1 u1" using pass [OF less.prems(2)] sc True by simp
    have "unclaimed u1 < unclaimed used" using scan_unclaimed [OF sc] True by simp
    from less.hyps [OF this gr J1] show ?thesis .
  next
    case False
    with sc less.prems(1) have eq: "grp' = g1" "used' = u1"
      by (subst (asm) grow.simps, simp)+
    from scan_unchanged [OF sc] False have "g1 = grp" "u1 = used" by simp_all
    with eq sc False less.prems(2) show ?thesis by simp
  qed
qed

lemma grow_total:
  assumes "length xs \<le> length used"
  shows "\<exists>r. grow P xs grp used = Some r"
  using assms
proof (induction "unclaimed used" arbitrary: grp used rule: less_induct)
  case less
  from scan_total [of 0 xs used P grp False] less.prems
  obtain g1 u1 c1 where sc: "scan P 0 xs (grp, used, False) = Some (g1, u1, c1)"
    by auto
  show ?case
  proof (cases c1)
    case True
    have "unclaimed u1 < unclaimed used" and "length xs \<le> length u1"
      using scan_unclaimed [OF sc] True less.prems by simp_all
    from less.hyps [OF this] obtain r where "grow P xs g1 u1 = Some r" by blast
    with sc True show ?thesis by (subst grow.simps) simp
  next
    case False
    with sc show ?thesis by (subst grow.simps) simp
  qed
qed

lemma merge_loop_rule:
  assumes "merge_loop P f xs i (drop i xs) (merged, used) = Some merged'"
    and "i \<le> length xs"
    and "K i merged used"
    and skip: "\<And>k m u. \<lbrakk>k < length xs; k < length u; K k m u; u ! k\<rbrakk> \<Longrightarrow> K (Suc k) m u"
    and take: "\<And>k m u g u'. \<lbrakk>k < length xs; k < length u; K k m u; \<not> u ! k;
                 grow P xs [xs ! k] (u[k := True]) = Some (g, u')\<rbrakk>
                 \<Longrightarrow> K (Suc k) (m @ [f g]) u'"
  shows "\<exists>used'. K (length xs) merged' used'"
  using assms(1,2,3)
proof (induction "length xs - i" arbitrary: i merged used)
  case 0
  then have "drop i xs = []" and "i = length xs" by simp_all
  with 0 show ?case by auto
next
  case (Suc d)
  then have ilt: "i < length xs" by simp
  then have dr: "drop i xs = xs ! i # drop (Suc i) xs"
    by (simp add: Cons_nth_drop_Suc)
  have d: "d = length xs - Suc i" using Suc.hyps(2) by simp
  have si: "Suc i \<le> length xs" using ilt by simp
  show ?case
  proof (cases "i < length used")
    case False
    with Suc.prems dr show ?thesis by simp
  next
    case inr: True
    show ?thesis
    proof (cases "used ! i")
      case True
      with inr Suc.prems(1) dr
      have ml: "merge_loop P f xs (Suc i) (drop (Suc i) xs) (merged, used) = Some merged'"
        by simp
      have "K (Suc i) merged used" using skip [OF ilt inr Suc.prems(3) True] .
      from Suc.hyps(1) [OF d ml si this] show ?thesis .
    next
      case False
      with inr Suc.prems(1) dr obtain g u' where
        gr: "grow P xs [xs ! i] (used[i := True]) = Some (g, u')" and
        ml: "merge_loop P f xs (Suc i) (drop (Suc i) xs) (merged @ [f g], u') = Some merged'"
        by (auto split: option.splits)
      have "K (Suc i) (merged @ [f g]) u'" using take [OF ilt inr Suc.prems(3) False gr] .
      from Suc.hyps(1) [OF d ml si this] show ?thesis .
    qed
  qed
qed

section \<open>What every run of the merging loops guarantees\<close>

lemma claims_more_refl: "claims_more xs g u g u"
  by (simp add: claims_more_def)

lemma claims_more_take:
  assumes "claims_more xs g u g1 u1" and "k < length xs" and "k < length u1"
  shows "claims_more xs g u (g1 @ [xs ! k]) (u1[k := True])"
proof -
  from assms(1) obtain add where add: "g1 = g @ add" "set add \<subseteq> set xs"
    and len: "length u1 = length u"
    and mono: "\<forall>j<length xs. u ! j \<longrightarrow> u1 ! j"
    and cov: "\<forall>j<length xs. u1 ! j \<longrightarrow> u ! j \<or> xs ! j \<in> set g1"
    by (auto simp: claims_more_def)
  have "g1 @ [xs ! k] = g @ (add @ [xs ! k])" "set (add @ [xs ! k]) \<subseteq> set xs"
    using add assms(2) by auto
  moreover have "\<forall>j<length xs. u ! j \<longrightarrow> (u1[k := True]) ! j"
    using mono assms(3) by (auto simp: nth_list_update)
  moreover have "\<forall>j<length xs. (u1[k := True]) ! j \<longrightarrow> u ! j \<or> xs ! j \<in> set (g1 @ [xs ! k])"
    using cov assms(3) by (auto simp: nth_list_update)
  ultimately show ?thesis
    unfolding claims_more_def using len by (metis length_list_update)
qed

lemma claims_more_trans:
  assumes "claims_more xs g u g1 u1" and "claims_more xs g1 u1 g2 u2"
  shows "claims_more xs g u g2 u2"
proof -
  from assms(1) obtain a1 where a1: "g1 = g @ a1" "set a1 \<subseteq> set xs" by (auto simp: claims_more_def)
  from assms(2) obtain a2 where a2: "g2 = g1 @ a2" "set a2 \<subseteq> set xs" by (auto simp: claims_more_def)
  have "g2 = g @ (a1 @ a2)" "set (a1 @ a2) \<subseteq> set xs" using a1 a2 by auto
  then have "\<exists>add. g2 = g @ add \<and> set add \<subseteq> set xs" by blast
  moreover have "set g1 \<subseteq> set g2" using a2 by auto
  ultimately show ?thesis
    using assms unfolding claims_more_def by (auto; blast)
qed

lemma scan_claims_more:
  assumes "scan P 0 xs (g, u, c) = Some (g1, u1, c1)"
  shows "claims_more xs g u g1 u1"
proof -
  have "scan P 0 (drop 0 xs) (g, u, c) = Some (g1, u1, c1)" using assms by simp
  then show ?thesis
  proof (rule scan_rule [where I = "\<lambda>k g' u' c'. claims_more xs g u g' u'"])
    show "claims_more xs g u g u" by (rule claims_more_refl)
  next
    fix k g' u' c'
    assume "k < length xs" "k < length u'" "claims_more xs g u g' u'"
    then show "claims_more xs g u (g' @ [xs ! k]) (u'[k := True])"
      by (rule claims_more_take [rotated 1])
  qed simp_all
qed

lemma grow_claims_more:
  assumes "grow P xs g u = Some (g', u')"
  shows "claims_more xs g u g' u'"
proof -
  have "claims_more xs g u g' u' \<and> scan P 0 xs (g', u', False) = Some (g', u', False)"
    using assms
  proof (rule grow_rule [where J = "\<lambda>g1 u1. claims_more xs g u g1 u1"])
    show "claims_more xs g u g u" by (rule claims_more_refl)
  next
    fix g0 u0 g1 u1
    assume "claims_more xs g u g0 u0" "scan P 0 xs (g0, u0, False) = Some (g1, u1, True)"
    then show "claims_more xs g u g1 u1"
      using claims_more_trans scan_claims_more by blast
  qed
  then show ?thesis ..
qed

lemma merge_loop_total:
  assumes "i + length rest \<le> length used" and "length xs \<le> length used"
  shows "\<exists>m'. merge_loop P f xs i rest (merged, used) = Some m'"
  using assms
proof (induction rest arbitrary: i merged used)
  case Nil
  then show ?case by simp
next
  case (Cons r rest)
  then have inr: "i < length used" by simp
  show ?case
  proof (cases "used ! i")
    case True
    with inr Cons.IH [of "Suc i" used merged] Cons.prems show ?thesis by simp
  next
    case False
    from grow_total [of xs "used[i := True]" P "[r]"] Cons.prems(2)
    obtain g u' where gr: "grow P xs [r] (used[i := True]) = Some (g, u')" by auto
    from grow_claims_more [OF gr] have "length u' = length used" by (simp add: claims_more_def)
    with Cons.IH [of "Suc i" u' "merged @ [f g]"] Cons.prems
    obtain m' where "merge_loop P f xs (Suc i) rest (merged @ [f g], u') = Some m'" by auto
    with inr False gr show ?thesis by simp
  qed
qed

lemma bounding_box_covers:
  assumes "c \<in> set grp"
  shows "box_covers (bounding_box grp) c"
proof -
  obtain x1 y1 x2 y2 where c: "c = (x1, y1, x2, y2)" by (cases c)
  have "Min (set (map (\<lambda>(x1, y1, x2, y2). x1) grp)) \<le> x1"
    using assms c by (intro Min_le) (auto simp: image_iff intro!: bexI [of _ c])
  moreover have "Min (set (map (\<lambda>(x1, y1, x2, y2). y1) grp)) \<le> y1"
    using assms c by (intro Min_le) (auto simp: image_iff intro!: bexI [of _ c])
  moreover have "x2 \<le> Max (set (map (\<lambda>(x1, y1, x2, y2). x2) grp))"
    using assms c by (intro Max_ge) (auto simp: image_iff intro!: bexI [of _ c])
  moreover have "y2 \<le> Max (set (map (\<lambda>(x1, y1, x2, y2). y2) grp))"
    using assms c by (intro Max_ge) (auto simp: image_iff intro!: bexI [of _ c])
  ultimately show ?thesis
    by (simp add: box_covers_def bounding_box_def c Let_def)
qed

lemma merge_loop_covers:
  assumes "merge_loop P bounding_box xs 0 xs ([], replicate (length xs) False) = Some merged"
    and "c \<in> set xs"
  shows "\<exists>b\<in>set merged. box_covers b c"
proof -
  let ?K = "\<lambda>k m u. length u = length xs \<and> (\<forall>j<k. u ! j) \<and>
                      (\<forall>j<length xs. u ! j \<longrightarrow> (\<exists>b\<in>set m. box_covers b (xs ! j)))"
  have "merge_loop P bounding_box xs 0 (drop 0 xs) ([], replicate (length xs) False) = Some merged"
    using assms(1) by simp
  then have "\<exists>used'. ?K (length xs) merged used'"
  proof (rule merge_loop_rule [where K = ?K])
    show "?K 0 [] (replicate (length xs) False)" by simp
  next
    fix k m u
    assume "k < length xs" "k < length u" "?K k m u" "u ! k"
    then show "?K (Suc k) m u" by (auto simp: less_Suc_eq)
  next
    fix k m u g u'
    assume k: "k < length xs" "k < length u" and K: "?K k m u" and "\<not> u ! k"
      and gr: "grow P xs [xs ! k] (u[k := True]) = Some (g, u')"
    from grow_claims_more [OF gr] have cm: "claims_more xs [xs ! k] (u[k := True]) g u'" .
    then obtain add where g: "g = [xs ! k] @ add" by (auto simp: claims_more_def)
    have len: "length u' = length xs" using cm K by (simp add: claims_more_def)
    have mono: "\<forall>j<length xs. (u[k := True]) ! j \<longrightarrow> u' ! j" using cm by (simp add: claims_more_def)
    have cov: "\<forall>j<length xs. u' ! j \<longrightarrow> (u[k := True]) ! j \<or> xs ! j \<in> set g"
      using cm by (simp add: claims_more_def)
    have "\<forall>j<Suc k. u' ! j"
    proof (intro allI impI)
      fix j assume "j < Suc k"
      then have "(u[k := True]) ! j" using K k by (auto simp: nth_list_update less_Suc_eq)
      with mono k \<open>j < Suc k\<close> show "u' ! j" by auto
    qed
    moreover have "\<forall>j<length xs. u' ! j \<longrightarrow> (\<exists>b\<in>set (m @ [bounding_box g]). box_covers b (xs ! j))"
    proof (intro allI impI)
      fix j assume j: "j < length xs" "u' ! j"
      show "\<exists>b\<in>set (m @ [bounding_box g]). box_covers b (xs ! j)"
      proof (cases "xs ! j \<in> set g")
        case True
        then show ?thesis using bounding_box_covers by auto
      next
        case False
        with cov j have "(u[k := True]) ! j" by blast
        moreover have "j \<noteq> k" using False g by auto
        ultimately have "u ! j" by simp
        with K j show ?thesis by auto
      qed
    qed
    ultimately show "?K (Suc k) (m @ [bounding_box g]) u'" using len by simp
  qed simp
  then show ?thesis using assms(2) by (auto simp: in_set_conv_nth)
qed

lemma merge_nearby_rectangles_returns:
  "\<exists>merged. merge_nearby_rectangles rectangles h v = Some merged"
proof (cases "rectangles = []")
  case True
  then show ?thesis by (simp add: merge_nearby_rectangles_def)
next
  case False
  have "\<exists>m'. merge_loop (\<lambda>group_rect rect2. rectangles_should_merge group_rect rect2 h v)
          bounding_box (to_corners rectangles) 0 (to_corners rectangles)
          ([], replicate (length (to_corners rectangles)) False) = Some m'"
    by (rule merge_loop_total) simp_all
  with False show ?thesis by (simp add: merge_nearby_rectangles_def Let_def)
qed

text \<open>
  Claim C10.  For every list of rectangles and all thresholds, \<open>merge_nearby_rectangles\<close>
  returns a list of groups such that every input rectangle lies inside (the bounding box
  of) at least one returned group; and the empty input yields the empty output.
\<close>

theorem C10_every_rectangle_covered:
  "(\<exists>merged. merge_nearby_rectangles rectangles h v = Some merged \<and>
      (\<forall>r\<in>set rectangles. \<exists>b\<in>set merged. rect_inside r b))
   \<and> merge_nearby_rectangles [] h v = Some []"
proof
  obtain merged where m: "merge_nearby_rectangles rectangles h v = Some merged"
    using merge_nearby_rectangles_returns by blast
  have "\<exists>b\<in>set merged. rect_inside r b" if r: "r \<in> set rectangles" for r
  proof -
    from r have ne: "rectangles \<noteq> []" by auto
    obtain x y w h' where r4: "r = (x, y, w, h')" by (cases r)
    have "(x, y, x + w, y + h') \<in> set (to_corners rectangles)"
      using r r4 by (force simp: to_corners_def)
    moreover from m ne have "merge_loop (\<lambda>group_rect rect2. rectangles_should_merge group_rect rect2 h v)
        bounding_box (to_corners rectangles) 0 (to_corners rectangles)
        ([], replicate (length (to_corners rectangles)) False) = Some merged"
      by (simp add: merge_nearby_rectangles_def Let_def)
    ultimately obtain b where "b \<in> set merged" "box_covers b (x, y, x + w, y + h')"
      using merge_loop_covers by blast
    then show ?thesis
      by (cases b) (auto simp: rect_inside_def box_covers_def r4)
  qed
  with m show "\<exists>merged. merge_nearby_rectangles rectangles h v = Some merged \<and>
      (\<forall>r\<in>set rectangles. \<exists>b\<in>set merged. rect_inside r b)" by blast
next
  show "merge_nearby_rectangles [] h v = Some []" by (simp add: merge_nearby_rectangles_def)
qed

theorem C10_every_rectangle_covered_witness:
  "merge_nearby_rectangles [(0, 0, 10, 10), (5, 5, 10, 30), (200, 0, 10, 10)] 20 5
     = Some [(0, 0, 15, 35), (200, 0, 10, 10)]
   \<and> rect_inside (0, 0, 10, 10) (0, 0, 15, 35)
   \<and> rect_inside (5, 5, 10, 30) (0, 0, 15, 35)
   \<and> rect_inside (200, 0, 10, 10) (200, 0, 10, 10)"
  using C10_every_rectangle_covered [of "[(0, 0, 10, 10), (5, 5, 10, 30), (200, 0, 10, 10)]" 20 5]
  by (simp add: merge_nearby_rectangles_def to_corners_def bounding_box_def
      rectangles_should_merge_def grow.simps rect_inside_def)

section \<open>Groups and categories\<close>

lemma merge_loop_map_f:
  "merge_loop P f xs i rest (map f gs, used)
   = map_option (map f) (merge_loop P (\<lambda>grp. grp) xs i rest (gs, used))"
proof (induction rest arbitrary: i gs used)
  case Nil
  then show ?case by simp
next
  case (Cons r rest)
  show ?case
  proof (cases "grow P xs [r] (used[i := True])")
    case None
    then show ?thesis using Cons.IH [of "Suc i" gs used] by simp
  next
    case (Some a)
    obtain g u' where a: "a = (g, u')" by (cases a)
    from Cons.IH [of "Suc i" "gs @ [g]" u'] Cons.IH [of "Suc i" gs used] Some a
    show ?thesis by simp
  qed
qed

lemma merge_nearby_rectangles_groups:
  "merge_nearby_rectangles rectangles h v
   = map_option (map bounding_box) (merge_groups rectangles h v)"
  using merge_loop_map_f [of _ bounding_box _ 0 _ "[]"]
  by (simp add: merge_nearby_rectangles_def merge_groups_def Let_def)

lemma merge_loop_groups:
  assumes "merge_loop P (\<lambda>grp. grp) xs 0 xs ([], replicate (length xs) False) = Some groups"
    and "grp \<in> set groups"
  shows "grp \<noteq> [] \<and> set grp \<subseteq> set xs"
proof -
  let ?K = "\<lambda>(k::nat) m (u::bool list). \<forall>g\<in>set m. g \<noteq> [] \<and> set g \<subseteq> set xs"
  have "merge_loop P (\<lambda>grp. grp) xs 0 (drop 0 xs) ([], replicate (length xs) False) = Some groups"
    using assms(1) by simp
  then have "\<exists>used'. ?K (length xs) groups used'"
  proof (rule merge_loop_rule [where K = ?K])
    fix k m u g u'
    assume k: "k < length xs" and K: "?K k m u"
      and gr: "grow P xs [xs ! k] (u[k := True]) = Some (g, u')"
    from grow_claims_more [OF gr] obtain add where "g = [xs ! k] @ add" "set add \<subseteq> set xs"
      by (auto simp: claims_more_def)
    with k K show "?K (Suc k) (m @ [g]) u'" by auto
  qed simp_all
  with assms(2) show ?thesis by blast
qed

lemma merge_groups_members:
  assumes "merge_groups rectangles h v = Some groups" and "grp \<in> set groups"
  shows "grp \<noteq> [] \<and> set grp \<subseteq> set (to_corners rectangles)"
proof (cases "rectangles = []")
  case True
  with assms show ?thesis by (simp add: merge_groups_def)
next
  case False
  with assms(1) have "merge_loop (\<lambda>group_rect rect2. rectangles_should_merge group_rect rect2 h v)
      (\<lambda>grp. grp) (to_corners rectangles) 0 (to_corners rectangles)
      ([], replicate (length (to_corners rectangles)) False) = Some groups"
    by (simp add: merge_groups_def Let_def)
  from merge_loop_groups [OF this assms(2)] show ?thesis .
qed

lemma emit_groups_items:
  assumes "it \<in> set (fst (emit_groups page_img page_num output_dir start_index kind cat_rects
                              merged (extracted_items, written)))"
  shows "it \<in> set extracted_items \<or>
         (item_type it = kind \<and>
          (\<exists>b\<in>set merged. coordinates it = group_crop page_img b \<and>
             individual_regions it = Some (length (filter (rectangles_overlap b) cat_rects))))"
  using assms
proof (induction merged arbitrary: extracted_items written)
  case Nil
  then show ?case by simp
next
  case (Cons r merged)
  obtain x1 y1 x2 y2 where crop: "group_crop page_img r = (x1, y1, x2, y2)"
    by (cases "group_crop page_img r")
  show ?case
  proof (cases "region_size page_img y1 y2 x1 x2 > 0")
    case True
    let ?fn = "''page_'' @ str_nat (page_num + 1) @ ''_'' @ kind @ ''_''
                 @ str_nat (start_index + length extracted_items + 1) @ ''.png''"
    let ?new = "\<lparr>page = page_num + 1, item_type = kind, filename = ?fn,
                 coordinates = (x1, y1, x2, y2),
                 individual_regions = Some (length (filter (rectangles_overlap r) cat_rects))\<rparr>"
    from Cons.prems True crop
    have "it \<in> set (fst (emit_groups page_img page_num output_dir start_index kind cat_rects merged
                 (extracted_items @ [?new], written @ [(path_join output_dir ?fn, (x1, y1, x2, y2))])))"
      by (simp add: Let_def)
    from Cons.IH [OF this] crop show ?thesis by auto
  next
    case False
    with Cons.prems crop
    have "it \<in> set (fst (emit_groups page_img page_num output_dir start_index kind cat_rects merged
                 (extracted_items, written)))"
      by simp
    from Cons.IH [OF this] show ?thesis by auto
  qed
qed

text \<open>
  Claim C9.  Every record that \<open>extract_by_color_detection\<close> emits for a page is either a
  yellow-highlight record whose crop is that of a group formed by merging the yellow
  candidates alone, all members of the group being yellow candidates, or a red-mark
  record whose crop is that of a group formed by merging the red candidates alone, all
  members being red candidates: no group mixes the two categories, whatever the
  coordinates of the candidates are.
\<close>

theorem C9_category_isolation:
  assumes "extract_by_color_detection page_img page_num output_dir start_index
             extract_highlights extract_handwriting yellow_rects red_rects = Some (items, written)"
    and "it \<in> set items"
  shows "(item_type it = ''yellow_highlight_group'' \<and> extract_highlights \<and>
           (\<exists>groups grp. merge_groups yellow_rects 100 50 = Some groups \<and> grp \<in> set groups \<and>
              grp \<noteq> [] \<and> set grp \<subseteq> set (to_corners yellow_rects) \<and>
              coordinates it = group_crop page_img (bounding_box grp) \<and>
              individual_regions it
                = Some (length (filter (rectangles_overlap (bounding_box grp)) yellow_rects))))
       \<or> (item_type it = ''red_mark_group'' \<and> extract_handwriting \<and>
           (\<exists>groups grp. merge_groups red_rects 80 40 = Some groups \<and> grp \<in> set groups \<and>
              grp \<noteq> [] \<and> set grp \<subseteq> set (to_corners red_rects) \<and>
              coordinates it = group_crop page_img (bounding_box grp) \<and>
              individual_regions it
                = Some (length (filter (rectangles_overlap (bounding_box grp)) red_rects))))"
proof -
  let ?Y = "item_type it = ''yellow_highlight_group'' \<and> extract_highlights \<and>
           (\<exists>groups grp. merge_groups yellow_rects 100 50 = Some groups \<and> grp \<in> set groups \<and>
              grp \<noteq> [] \<and> set grp \<subseteq> set (to_corners yellow_rects) \<and>
              coordinates it = group_crop page_img (bounding_box grp) \<and>
              individual_regions it
                = Some (length (filter (rectangles_overlap (bounding_box grp)) yellow_rects)))"
  let ?R = "item_type it = ''red_mark_group'' \<and> extract_handwriting \<and>
           (\<exists>groups grp. merge_groups red_rects 80 40 = Some groups \<and> grp \<in> set groups \<and>
              grp \<noteq> [] \<and> set grp \<subseteq> set (to_corners red_rects) \<and>
              coordinates it = group_crop page_img (bounding_box grp) \<and>
              individual_regions it
                = Some (length (filter (rectangles_overlap (bounding_box grp)) red_rects)))"
  have from_groups: "item_type it = kind \<and>
          (\<exists>groups grp. merge_groups cat h v = Some groups \<and> grp \<in> set groups \<and>
              grp \<noteq> [] \<and> set grp \<subseteq> set (to_corners cat) \<and>
              coordinates it = group_crop page_img (bounding_box grp) \<and>
              individual_regions it
                = Some (length (filter (rectangles_overlap (bounding_box grp)) cat)))"
    if m: "merge_nearby_rectangles cat h v = Some merged"
      and it: "item_type it = kind \<and>
          (\<exists>b\<in>set merged. coordinates it = group_crop page_img b \<and>
             individual_regions it = Some (length (filter (rectangles_overlap b) cat)))"
    for cat h v merged kind
  proof -
    from m obtain groups where g: "merge_groups cat h v = Some groups"
      and mg: "merged = map bounding_box groups"
      by (auto simp: merge_nearby_rectangles_groups)
    from it mg obtain grp where grp: "grp \<in> set groups"
      "coordinates it = group_crop page_img (bounding_box grp)"
      "individual_regions it = Some (length (filter (rectangles_overlap (bounding_box grp)) cat))"
      by auto
    from merge_groups_members [OF g grp(1)] g grp it show ?thesis by blast
  qed
  obtain yi yw where
    y: "(if extract_highlights then
              (case merge_nearby_rectangles yellow_rects 100 50 of
                 None \<Rightarrow> None
               | Some merged_yellow \<Rightarrow>
                   Some (emit_groups page_img page_num output_dir start_index
                           ''yellow_highlight_group'' yellow_rects merged_yellow ([], [])))
            else Some ([], [])) = Some (yi, yw)"
    using assms(1) unfolding extract_by_color_detection_def
    by (auto split: option.splits)
  have yi: "?Y" if "it \<in> set yi"
  proof -
    from y that have eh: extract_highlights by (auto split: if_splits)
    with y obtain my where my: "merge_nearby_rectangles yellow_rects 100 50 = Some my"
      and e: "emit_groups page_img page_num output_dir start_index
                ''yellow_highlight_group'' yellow_rects my ([], []) = (yi, yw)"
      by (auto split: option.splits)
    from that e have "it \<in> set (fst (emit_groups page_img page_num output_dir start_index
                ''yellow_highlight_group'' yellow_rects my ([], [])))" by simp
    from emit_groups_items [OF this] from_groups [OF my] eh show ?thesis by simp
  qed
  show ?thesis
  proof (cases extract_handwriting)
    case False
    with assms(1) y have "items = yi" unfolding extract_by_color_detection_def by simp
    with assms(2) yi show ?thesis by blast
  next
    case True
    with assms(1) y obtain mr where mr: "merge_nearby_rectangles red_rects 80 40 = Some mr"
      and e: "emit_groups page_img page_num output_dir start_index
                ''red_mark_group'' red_rects mr (yi, yw) = (items, written)"
      unfolding extract_by_color_detection_def by (auto split: option.splits)
    from assms(2) e have "it \<in> set (fst (emit_groups page_img page_num output_dir start_index
                ''red_mark_group'' red_rects mr (yi, yw)))" by simp
    from emit_groups_items [OF this] from_groups [OF mr] True yi show ?thesis by blast
  qed
qed

text \<open>
  A yellow and a red candidate with identical coordinates end in two records, one of each
  category.
\<close>

theorem C9_category_isolation_witness:
  "extract_by_color_detection \<lparr>img_height = 1200, img_width = 900\<rparr> 0 ''out'' 0 True True
       [(100, 100, 50, 20)] [(100, 100, 50, 20)]
     = Some ([\<lparr>page = 1, item_type = ''yellow_highlight_group'',
                filename = ''page_1_yellow_highlight_group_1.png'',
                coordinates = (85, 85, 165, 135), individual_regions = Some 1\<rparr>,
              \<lparr>page = 1, item_type = ''red_mark_group'',
                filename = ''page_1_red_mark_group_2.png'',
                coordinates = (85, 85, 165, 135), individual_regions = Some 1\<rparr>],
             [(''out/page_1_yellow_highlight_group_1.png'', (85, 85, 165, 135)),
              (''out/page_1_red_mark_group_2.png'', (85, 85, 165, 135))])
   \<and> merge_groups [(100, 100, 50, 20)] 100 50 = Some [[(100, 100, 150, 120)]]
   \<and> merge_groups [(100, 100, 50, 20)] 80 40 = Some [[(100, 100, 150, 120)]]"
proof -
  let ?y = "\<lparr>page = 1, item_type = ''yellow_highlight_group'',
                filename = ''page_1_yellow_highlight_group_1.png'',
                coordinates = (85, 85, 165, 135), individual_regions = Some 1\<rparr>"
  let ?r = "\<lparr>page = 1, item_type = ''red_mark_group'',
                filename = ''page_1_red_mark_group_2.png'',
                coordinates = (85, 85, 165, 135), individual_regions = Some 1\<rparr>"
  have run: "extract_by_color_detection \<lparr>img_height = 1200, img_width = 900\<rparr> 0 ''out'' 0 True True
       [(100, 100, 50, 20)] [(100, 100, 50, 20)]
     = Some ([?y, ?r],
             [(''out/page_1_yellow_highlight_group_1.png'', (85, 85, 165, 135)),
              (''out/page_1_red_mark_group_2.png'', (85, 85, 165, 135))])"
    by (simp add: color_eval)
  have mem: "?r \<in> set [?y, ?r]" by simp
  have groups: "merge_groups [(100, 100, 50, 20)] 100 50 = Some [[(100, 100, 150, 120)]]"
    "merge_groups [(100, 100, 50, 20)] 80 40 = Some [[(100, 100, 150, 120)]]"
    by (simp_all add: merge_groups_def to_corners_def rectangles_should_merge_def grow.simps Let_def)
  from C9_category_isolation [OF run mem]
  have "item_type ?r = ''yellow_highlight_group'' \<or> item_type ?r = ''red_mark_group''"
    by blast
  with run groups show ?thesis by simp
qed

section \<open>A second merging pass\<close>

lemma scan_nothing:
  assumes "\<forall>k. j \<le> k \<and> k < length xs \<longrightarrow> used ! k \<or> \<not> group_merges P grp (xs ! k)"
    and "length xs \<le> length used"
  shows "scan P j (drop j xs) (grp, used, changed) = Some (grp, used, changed)"
  using assms(1)
proof (induction "length xs - j" arbitrary: j)
  case 0
  then show ?case by simp
next
  case (Suc d)
  then have jlt: "j < length xs" by simp
  then have dr: "drop j xs = xs ! j # drop (Suc j) xs"
    by (simp add: Cons_nth_drop_Suc)
  have "scan P (Suc j) (drop (Suc j) xs) (grp, used, changed) = Some (grp, used, changed)"
    using Suc.hyps(2) Suc.prems by (intro Suc.hyps(1)) auto
  moreover have "used ! j \<or> \<not> group_merges P grp (xs ! j)" using Suc.prems jlt by auto
  ultimately show ?case using dr jlt assms(2) by auto
qed

lemma grow_nothing:
  assumes "\<forall>k<length xs. used ! k \<or> \<not> group_merges P grp (xs ! k)"
    and "length xs \<le> length used"
  shows "grow P xs grp used = Some (grp, used)"
proof -
  have "scan P 0 (drop 0 xs) (grp, used, False) = Some (grp, used, False)"
    using assms by (intro scan_nothing) auto
  then show ?thesis by (subst grow.simps) simp
qed

lemma merge_loop_apart:
  assumes apart: "\<forall>i<length xs. \<forall>j<length xs. i \<noteq> j \<longrightarrow> \<not> P (xs ! i) (xs ! j)"
  shows "merge_loop P f xs 0 xs ([], replicate (length xs) False) = Some (map (\<lambda>x. f [x]) xs)"
proof -
  let ?K = "\<lambda>k m u. length u = length xs \<and> (\<forall>j<length xs. u ! j \<longleftrightarrow> j < k) \<and>
                      m = map (\<lambda>x. f [x]) (take k xs)"
  obtain m' where m': "merge_loop P f xs 0 xs ([], replicate (length xs) False) = Some m'"
    using merge_loop_total [of 0 xs "replicate (length xs) False" xs P f "[]"] by auto
  then have "merge_loop P f xs 0 (drop 0 xs) ([], replicate (length xs) False) = Some m'"
    by simp
  then have "\<exists>used'. ?K (length xs) m' used'"
  proof (rule merge_loop_rule [where K = ?K])
    show "?K 0 [] (replicate (length xs) False)" by simp
  next
    fix k m u
    assume "k < length xs" "k < length u" "?K k m u" "u ! k"
    then show "?K (Suc k) m u" by auto
  next
    fix k m u g u'
    assume k: "k < length xs" "k < length u" and K: "?K k m u" and nu: "\<not> u ! k"
      and gr: "grow P xs [xs ! k] (u[k := True]) = Some (g, u')"
    have fl: "\<forall>j<length xs. (u[k := True]) ! j \<longleftrightarrow> j < Suc k"
      using K k by (auto simp: nth_list_update less_Suc_eq)
    have "\<forall>j<length xs. (u[k := True]) ! j \<or> \<not> group_merges P [xs ! k] (xs ! j)"
    proof (intro allI impI)
      fix j assume j: "j < length xs"
      show "(u[k := True]) ! j \<or> \<not> group_merges P [xs ! k] (xs ! j)"
      proof (cases "j < Suc k")
        case True
        with fl j show ?thesis by simp
      next
        case False
        then have "k \<noteq> j" by simp
        with apart k j have "\<not> P (xs ! k) (xs ! j)" by blast
        then show ?thesis by simp
      qed
    qed
    then have "grow P xs [xs ! k] (u[k := True]) = Some ([xs ! k], u[k := True])"
      using K by (intro grow_nothing) simp_all
    with gr have "g = [xs ! k]" "u' = u[k := True]" by simp_all
    with K k fl show "?K (Suc k) (m @ [f g]) u'"
      by (simp add: take_Suc_conv_app_nth)
  qed simp
  with m' show ?thesis by auto
qed

lemma bounding_box_single: "bounding_box [(x, y, x + w, y + h)] = (x, y, w, h)"
  by (simp add: bounding_box_def)

lemma bounding_box_to_corners: "map (\<lambda>x. bounding_box [x]) (to_corners rs) = rs"
  by (induction rs) (auto simp: to_corners_def bounding_box_def)

text \<open>
  Claim C4, as amended.  When no returned group satisfies the merge predicate against
  another returned group, feeding the returned groups back into \<open>merge_nearby_rectangles\<close>
  with the same thresholds yields the same rectangles unmerged.
\<close>

theorem C4_second_pass:
  assumes "merge_nearby_rectangles rectangles h v = Some merged"
    and "groups_apart merged h v"
  shows "merge_nearby_rectangles merged h v = Some merged"
proof (cases "merged = []")
  case True
  then show ?thesis by (simp add: merge_nearby_rectangles_def)
next
  case False
  let ?P = "\<lambda>group_rect rect2. rectangles_should_merge group_rect rect2 h v"
  let ?xs = "to_corners merged"
  have "\<forall>i<length ?xs. \<forall>j<length ?xs. i \<noteq> j \<longrightarrow> \<not> ?P (?xs ! i) (?xs ! j)"
  proof (intro allI impI)
    fix i j assume ij: "i < length ?xs" "j < length ?xs" "i \<noteq> j"
    from assms(2) have sw: "\<forall>a b. a < b \<longrightarrow> b < length ?xs \<longrightarrow> \<not> ?P (?xs ! a) (?xs ! b)"
      by (simp add: groups_apart_def sorted_wrt_iff_nth_less)
    show "\<not> ?P (?xs ! i) (?xs ! j)"
    proof (cases "i < j")
      case True
      with sw ij show ?thesis by blast
    next
      case False
      with ij have "j < i" by simp
      with sw ij have "\<not> ?P (?xs ! j) (?xs ! i)" by blast
      then show ?thesis by (simp add: rectangles_should_merge_sym)
    qed
  qed
  from merge_loop_apart [of ?xs ?P bounding_box, OF this] False
  show ?thesis
    by (simp add: merge_nearby_rectangles_def Let_def bounding_box_to_corners)
qed

theorem C4_second_pass_witness:
  "merge_nearby_rectangles [(0, 0, 10, 10), (5, 5, 10, 30), (200, 0, 10, 10)] 20 5
     = Some [(0, 0, 15, 35), (200, 0, 10, 10)]
   \<and> groups_apart [(0, 0, 15, 35), (200, 0, 10, 10)] 20 5
   \<and> merge_nearby_rectangles [(0, 0, 15, 35), (200, 0, 10, 10)] 20 5
     = Some [(0, 0, 15, 35), (200, 0, 10, 10)]"
proof -
  have run: "merge_nearby_rectangles [(0, 0, 10, 10), (5, 5, 10, 30), (200, 0, 10, 10)] 20 5
     = Some [(0, 0, 15, 35), (200, 0, 10, 10)]"
    by (simp add: merge_nearby_rectangles_def to_corners_def bounding_box_def
      rectangles_should_merge_def grow.simps)
  have apart: "groups_apart [(0, 0, 15, 35), (200, 0, 10, 10)] 20 5"
    by (simp add: groups_apart_def to_corners_def rectangles_should_merge_def)
  from C4_second_pass [OF run apart] run apart show ?thesis by simp
qed

text \<open>
  Claim C4 as stated fails: the bounding box of a group can reach another group that none
  of its members is near.  Two long thin rectangles that meet in a corner span the box
  \<open>(0, 0, 1000, 1000)\<close>; the small rectangle in the middle of that box is far from both,
  so the first pass returns two groups, and the second pass merges them.
\<close>

theorem C4_second_pass_merges_counterexample:
  "merge_nearby_rectangles [(0, 0, 1000, 10), (0, 0, 10, 1000), (500, 500, 10, 10)] 100 50
     = Some [(0, 0, 1000, 1000), (500, 500, 10, 10)]
   \<and> merge_nearby_rectangles [(0, 0, 1000, 1000), (500, 500, 10, 10)] 100 50
     = Some [(0, 0, 1000, 1000)]
   \<and> rectangles_should_merge (0, 0, 1000, 1000) (500, 500, 510, 510) 100 50"
  by (simp add: merge_nearby_rectangles_def to_corners_def bounding_box_def
      rectangles_should_merge_def grow.simps)

section \<open>Merging computes the connected components\<close>

lemma flags_ok_update:
  assumes "distinct xs" and "flags_ok xs u S" and "k < length xs"
  shows "flags_ok xs (u[k := True]) (insert (xs ! k) S)"
proof -
  have "(u[k := True]) ! j \<longleftrightarrow> xs ! j \<in> insert (xs ! k) S" if j: "j < length xs" for j
  proof (cases "j = k")
    case True
    with assms show ?thesis by (simp add: flags_ok_def)
  next
    case False
    with assms j have "xs ! j \<noteq> xs ! k" by (simp add: nth_eq_iff_index_eq)
    with False assms j show ?thesis by (simp add: flags_ok_def)
  qed
  with assms(2) show ?thesis by (simp add: flags_ok_def)
qed

lemma component_self: "a \<in> component P X a"
  by (simp add: component_def)

lemma component_step:
  "b \<in> component P X a \<Longrightarrow> (b, c) \<in> link P X \<Longrightarrow> c \<in> component P X a"
  by (auto simp: component_def intro: rtrancl_into_rtrancl)

lemma component_subset:
  assumes "a \<in> X"
  shows "component P X a \<subseteq> X"
proof
  fix b assume "b \<in> component P X a"
  then have "(a, b) \<in> (link P X)\<^sup>*" by (simp add: component_def)
  then show "b \<in> X"
    by (induction rule: rtrancl_induct) (use assms in \<open>auto simp: link_def\<close>)
qed

lemma sym_link:
  assumes "symp P"
  shows "sym (link P X)"
  using assms by (auto simp: sym_def link_def dest: sympD)

lemma component_eq:
  assumes "symp P" and "b \<in> component P X a"
  shows "component P X b = component P X a"
proof -
  have s: "sym ((link P X)\<^sup>*)" using sym_link [OF assms(1)] by (rule sym_rtrancl)
  from assms(2) have ab: "(a, b) \<in> (link P X)\<^sup>*" by (simp add: component_def)
  with s have ba: "(b, a) \<in> (link P X)\<^sup>*" by (meson symD)
  show ?thesis
    unfolding component_def using ab ba by (auto intro: rtrancl_trans)
qed

lemma scan_last_pass:
  assumes "scan P 0 xs (g, u, False) = Some (g', u', False)"
  shows "\<forall>k<length xs. u ! k \<or> \<not> group_merges P g (xs ! k)"
proof -
  let ?I = "\<lambda>k g1 u1 c1. \<not> c1 \<longrightarrow> g1 = g \<and> u1 = u \<and> (\<forall>m<k. u ! m \<or> \<not> group_merges P g (xs ! m))"
  have "scan P 0 (drop 0 xs) (g, u, False) = Some (g', u', False)" using assms by simp
  then have "?I (length xs) g' u' False"
  proof (rule scan_rule [where I = ?I])
    fix k g1 u1 c1
    assume "k < length xs" "k < length u1" "?I k g1 u1 c1" "u1 ! k \<or> \<not> group_merges P g1 (xs ! k)"
    then show "?I (Suc k) g1 u1 c1" by (auto simp: less_Suc_eq)
  qed simp_all
  then show ?thesis by simp
qed

lemma growing_take:
  assumes "distinct xs" and "growing P xs D s g u" and "k < length xs" and "\<not> u ! k"
    and "group_merges P g (xs ! k)"
  shows "growing P xs D s (g @ [xs ! k]) (u[k := True])"
proof -
  from assms(2) have fl: "flags_ok xs u (D \<union> set g)" and dg: "distinct g"
    and dj: "D \<inter> set g = {}" and s: "s \<in> set g" and sub: "set g \<subseteq> set xs"
    and comp: "set g \<subseteq> component P (set xs) s"
    by (simp_all add: growing_def)
  from fl assms(3,4) have new: "xs ! k \<notin> D \<union> set g" by (simp add: flags_ok_def)
  have "flags_ok xs (u[k := True]) (insert (xs ! k) (D \<union> set g))"
    using flags_ok_update [OF assms(1) fl assms(3)] .
  then have 1: "flags_ok xs (u[k := True]) (D \<union> set (g @ [xs ! k]))" by simp
  from assms(5) obtain b where b: "b \<in> set g" "P b (xs ! k)" by (auto simp: group_merges_iff)
  with sub assms(3) have "(b, xs ! k) \<in> link P (set xs)" by (auto simp: link_def)
  with b comp have 2: "xs ! k \<in> component P (set xs) s" by (blast intro: component_step)
  from 1 2 new dg dj s sub comp assms(3) show ?thesis
    by (auto simp: growing_def)
qed

lemma scan_growing:
  assumes "scan P 0 xs (g, u, c) = Some (g', u', c')" and "distinct xs" and "growing P xs D s g u"
  shows "growing P xs D s g' u'"
proof -
  have "scan P 0 (drop 0 xs) (g, u, c) = Some (g', u', c')" using assms(1) by simp
  then show ?thesis
  proof (rule scan_rule [where I = "\<lambda>k g1 u1 c1. growing P xs D s g1 u1"])
    fix k g1 u1 c1
    assume "k < length xs" "growing P xs D s g1 u1" "\<not> u1 ! k" "group_merges P g1 (xs ! k)"
    then show "growing P xs D s (g1 @ [xs ! k]) (u1[k := True])"
      using growing_take [OF assms(2)] by blast
  qed (simp_all add: assms(3))
qed

lemma grow_growing:
  assumes "grow P xs g u = Some (g', u')" and "distinct xs" and "growing P xs D s g u"
  shows "growing P xs D s g' u' \<and> (\<forall>k<length xs. u' ! k \<or> \<not> group_merges P g' (xs ! k))"
proof -
  have "growing P xs D s g' u' \<and> scan P 0 xs (g', u', False) = Some (g', u', False)"
    using assms(1)
  proof (rule grow_rule [where J = "\<lambda>g1 u1. growing P xs D s g1 u1"])
    fix g0 u0 g1 u1
    assume "growing P xs D s g0 u0" "scan P 0 xs (g0, u0, False) = Some (g1, u1, True)"
    then show "growing P xs D s g1 u1" using scan_growing [OF _ assms(2)] by blast
  qed (rule assms(3))
  then show ?thesis using scan_last_pass by blast
qed

lemma grown_component:
  assumes sym: "symp P"
    and gr: "growing P xs D s g u"
    and last: "\<forall>k<length xs. u ! k \<or> \<not> group_merges P g (xs ! k)"
    and closed: "\<And>a b. a \<in> D \<Longrightarrow> (a, b) \<in> link P (set xs) \<Longrightarrow> b \<in> D"
  shows "set g = component P (set xs) s"
proof
  from gr show "set g \<subseteq> component P (set xs) s" by (simp add: growing_def)
next
  from gr have fl: "flags_ok xs u (D \<union> set g)" and dj: "D \<inter> set g = {}" and s: "s \<in> set g"
    and sub: "set g \<subseteq> set xs"
    by (simp_all add: growing_def)
  show "component P (set xs) s \<subseteq> set g"
  proof
    fix b assume "b \<in> component P (set xs) s"
    then have "(s, b) \<in> (link P (set xs))\<^sup>*" by (simp add: component_def)
    then show "b \<in> set g"
    proof (induction rule: rtrancl_induct)
      case base
      from s show ?case .
    next
      case (step a c)
      from step.hyps(2) have c: "c \<in> set xs" and Pac: "P a c" by (auto simp: link_def)
      from c obtain j where j: "j < length xs" "xs ! j = c" by (auto simp: in_set_conv_nth)
      show ?case
      proof (cases "u ! j")
        case True
        with fl j have "c \<in> D \<union> set g" by (auto simp: flags_ok_def)
        moreover have "c \<notin> D"
        proof
          assume "c \<in> D"
          moreover from step.hyps(2) sym have "(c, a) \<in> link P (set xs)"
            by (auto simp: link_def dest: sympD)
          ultimately have "a \<in> D" by (rule closed)
          with step.IH dj show False by blast
        qed
        ultimately show ?thesis by simp
      next
        case False
        with last j have "\<not> group_merges P g c" by auto
        with step.IH Pac show ?thesis by (auto simp: group_merges_iff)
      qed
    qed
  qed
qed

lemma grouped_take:
  assumes sym: "symp P" and dx: "distinct xs"
    and G: "grouped P xs k m u" and k: "k < length xs" and nu: "\<not> u ! k"
    and gr: "grow P xs [xs ! k] (u[k := True]) = Some (g, u')"
  shows "grouped P xs (Suc k) (m @ [g]) u'"
proof -
  let ?D = "\<Union>(set ` set m)"
  let ?s = "xs ! k"
  from G have fl: "flags_ok xs u ?D" and before: "\<forall>j<k. j < length xs \<longrightarrow> u ! j"
    and comps: "\<forall>g\<in>set m. distinct g \<and> (\<exists>s\<in>set xs. set g = component P (set xs) s)"
    and dm: "distinct (map set m)"
    by (simp_all add: grouped_def)
  from fl k nu have sD: "?s \<notin> ?D" by (simp add: flags_ok_def)
  have "flags_ok xs (u[k := True]) (insert ?s ?D)" by (rule flags_ok_update [OF dx fl k])
  then have start: "growing P xs ?D ?s [?s] (u[k := True])"
    using sD k by (simp add: growing_def component_self)
  from grow_growing [OF gr dx start]
  have grown: "growing P xs ?D ?s g u'"
    and last: "\<forall>j<length xs. u' ! j \<or> \<not> group_merges P g (xs ! j)"
    by simp_all
  have closed: "b \<in> ?D" if "a \<in> ?D" "(a, b) \<in> link P (set xs)" for a b
  proof -
    from that(1) obtain g0 where g0: "g0 \<in> set m" "a \<in> set g0" by auto
    with comps obtain s0 where "set g0 = component P (set xs) s0" by blast
    with g0 that(2) have "b \<in> set g0" by (auto intro: component_step)
    with g0 show ?thesis by auto
  qed
  have eq: "set g = component P (set xs) ?s"
    by (rule grown_component [OF sym grown last closed])
  from grown have fl': "flags_ok xs u' (?D \<union> set g)" and dg: "distinct g" and sg: "?s \<in> set g"
    by (simp_all add: growing_def)
  have 1: "flags_ok xs u' (\<Union>(set ` set (m @ [g])))"
    using fl' by (simp add: Un_commute)
  have 2: "\<forall>j<Suc k. j < length xs \<longrightarrow> u' ! j"
  proof (intro allI impI)
    fix j assume j: "j < Suc k" "j < length xs"
    show "u' ! j"
    proof (cases "j = k")
      case True
      with sg fl' k show ?thesis by (simp add: flags_ok_def)
    next
      case False
      with j before have "u ! j" by simp
      with fl j have "xs ! j \<in> ?D" by (simp add: flags_ok_def)
      with fl' j show ?thesis by (simp add: flags_ok_def)
    qed
  qed
  have 3: "\<forall>g\<in>set (m @ [g]). distinct g \<and> (\<exists>s\<in>set xs. set g = component P (set xs) s)"
    using comps dg eq k by auto
  have "set g \<notin> set ` set m" using sD sg by auto
  with dm have 4: "distinct (map set (m @ [g]))" by simp
  from 1 2 3 4 show ?thesis by (simp add: grouped_def)
qed

lemma merge_loop_components:
  assumes sym: "symp P" and dx: "distinct xs"
    and run: "merge_loop P (\<lambda>grp. grp) xs 0 xs ([], replicate (length xs) False) = Some groups"
  shows "set (map set groups) = component P (set xs) ` set xs \<and> distinct (map set groups) \<and>
         (\<forall>g\<in>set groups. distinct g)"
proof -
  have "merge_loop P (\<lambda>grp. grp) xs 0 (drop 0 xs) ([], replicate (length xs) False) = Some groups"
    using run by simp
  then have "\<exists>used'. grouped P xs (length xs) groups used'"
  proof (rule merge_loop_rule [where K = "grouped P xs"])
    show "grouped P xs 0 [] (replicate (length xs) False)"
      by (simp add: grouped_def flags_ok_def)
  next
    fix k m u
    assume "k < length xs" "grouped P xs k m u" "u ! k"
    then show "grouped P xs (Suc k) m u" by (auto simp: grouped_def less_Suc_eq)
  next
    fix k m u g u'
    assume "k < length xs" "grouped P xs k m u" "\<not> u ! k"
      "grow P xs [xs ! k] (u[k := True]) = Some (g, u')"
    then show "grouped P xs (Suc k) (m @ [g]) u'"
      using grouped_take [OF sym dx] by blast
  qed simp
  then obtain u where G: "grouped P xs (length xs) groups u" ..
  then have fl: "flags_ok xs u (\<Union>(set ` set groups))" and all: "\<forall>j<length xs. u ! j"
    and comps: "\<forall>g\<in>set groups. distinct g \<and> (\<exists>s\<in>set xs. set g = component P (set xs) s)"
    and dm: "distinct (map set groups)"
    by (simp_all add: grouped_def)
  have "set (map set groups) = component P (set xs) ` set xs"
  proof
    show "set (map set groups) \<subseteq> component P (set xs) ` set xs" using comps by auto
  next
    show "component P (set xs) ` set xs \<subseteq> set (map set groups)"
    proof
      fix C assume "C \<in> component P (set xs) ` set xs"
      then obtain a where a: "a \<in> set xs" "C = component P (set xs) a" by auto
      from a(1) obtain j where j: "j < length xs" "xs ! j = a" by (auto simp: in_set_conv_nth)
      with all fl have "a \<in> \<Union>(set ` set groups)" by (auto simp: flags_ok_def)
      then obtain g where g: "g \<in> set groups" "a \<in> set g" by auto
      with comps obtain s where "set g = component P (set xs) s" by blast
      with g(2) a(2) have "C = set g" using component_eq [OF sym] by metis
      with g(1) show "C \<in> set (map set groups)" by auto
    qed
  qed
  with dm comps show ?thesis by blast
qed

lemma merge_loop_same_set:
  assumes sym: "symp P" and dx: "distinct xs" and dy: "distinct ys"
    and same: "set xs = set ys"
    and rx: "merge_loop P (\<lambda>grp. grp) xs 0 xs ([], replicate (length xs) False) = Some gx"
    and ry: "merge_loop P (\<lambda>grp. grp) ys 0 ys ([], replicate (length ys) False) = Some gy"
    and f: "\<And>g g'. distinct g \<Longrightarrow> distinct g' \<Longrightarrow> set g = set g' \<Longrightarrow> f g = f g'"
  shows "mset (map f gx) = mset (map f gy)"
proof -
  define F where "F S = f (SOME g. distinct g \<and> set g = S)" for S
  have F: "f g = F (set g)" if "distinct g" for g
  proof -
    have "distinct (SOME g'. distinct g' \<and> set g' = set g) \<and>
          set (SOME g'. distinct g' \<and> set g' = set g) = set g"
      by (rule someI [of "\<lambda>g'. distinct g' \<and> set g' = set g" g]) (simp add: that)
    with f [OF that] show ?thesis unfolding F_def by metis
  qed
  from merge_loop_components [OF sym dx rx]
  have x: "set (map set gx) = component P (set xs) ` set xs" "distinct (map set gx)"
    "\<forall>g\<in>set gx. distinct g" by simp_all
  from merge_loop_components [OF sym dy ry]
  have y: "set (map set gy) = component P (set ys) ` set ys" "distinct (map set gy)"
    "\<forall>g\<in>set gy. distinct g" by simp_all
  have "mset (map set gx) = mset_set (set (map set gx))"
    by (rule mset_set_set [symmetric]) (rule x(2))
  also have "\<dots> = mset_set (set (map set gy))" using x(1) y(1) same by simp
  also have "\<dots> = mset (map set gy)"
    by (rule mset_set_set) (rule y(2))
  finally have ms: "mset (map set gx) = mset (map set gy)" .
  have "map f gx = map F (map set gx)" using x(3) F by simp
  moreover have "map f gy = map F (map set gy)" using y(3) F by simp
  ultimately show ?thesis using ms by (metis mset_map)
qed

section \<open>Independence of the input order\<close>

text \<open>
  The loops commute with a renaming of the rectangles.  Run on the rectangles paired with
  their positions, the input has no repeated entries, so the component characterisation
  applies; mapping the pairs back gives the run on the rectangles themselves.
\<close>

lemma group_merges_map:
  "group_merges P (map h g) (h r) = group_merges (\<lambda>a b. P (h a) (h b)) g r"
  by (induction g) auto

lemma scan_map:
  "scan P j (map h rest) (map h g, u, c)
   = map_option (\<lambda>(g', u', c'). (map h g', u', c')) (scan (\<lambda>a b. P (h a) (h b)) j rest (g, u, c))"
proof (induction rest arbitrary: j g u c)
  case Nil
  then show ?case by simp
next
  case (Cons r rest)
  from Cons.IH [of "Suc j" g u c] Cons.IH [of "Suc j" "g @ [r]" "u[j := True]" True]
  show ?case by (simp add: group_merges_map)
qed

lemma grow_map:
  "grow P (map h xs) (map h g) u
   = map_option (\<lambda>(g', u'). (map h g', u')) (grow (\<lambda>a b. P (h a) (h b)) xs g u)"
proof (induction "unclaimed u" arbitrary: g u rule: less_induct)
  case less
  let ?P = "\<lambda>a b. P (h a) (h b)"
  show ?case
  proof (cases "scan ?P 0 xs (g, u, False)")
    case None
    then have "scan P 0 (map h xs) (map h g, u, False) = None" by (simp add: scan_map)
    with None show ?thesis by (simp add: grow.simps [of _ _ _ u])
  next
    case (Some st)
    obtain g1 u1 c1 where st: "st = (g1, u1, c1)" by (cases st)
    from Some st have sc: "scan P 0 (map h xs) (map h g, u, False) = Some (map h g1, u1, c1)"
      by (simp add: scan_map)
    show ?thesis
    proof (cases c1)
      case True
      from scan_unclaimed [of ?P 0 xs g u False g1 u1 c1] Some st True
      have "unclaimed u1 < unclaimed u" by simp
      from less.hyps [OF this, of g1] Some st sc True show ?thesis
        by (simp add: grow.simps [of _ _ _ u])
    next
      case False
      with Some st sc show ?thesis by (simp add: grow.simps [of _ _ _ u])
    qed
  qed
qed

lemma merge_loop_map:
  "merge_loop P f (map h xs) i (map h rest) (m, u)
   = merge_loop (\<lambda>a b. P (h a) (h b)) (\<lambda>g. f (map h g)) xs i rest (m, u)"
proof (induction rest arbitrary: i m u)
  case Nil
  then show ?case by simp
next
  case (Cons r rest)
  have g: "grow P (map h xs) [h r] (u[i := True])
           = map_option (\<lambda>(g', u'). (map h g', u')) (grow (\<lambda>a b. P (h a) (h b)) xs [r] (u[i := True]))"
    using grow_map [of P h xs "[r]" "u[i := True]"] by simp
  show ?case
  proof (cases "grow (\<lambda>a b. P (h a) (h b)) xs [r] (u[i := True])")
    case None
    with g Cons.IH [of "Suc i" m u] show ?thesis by simp
  next
    case (Some a)
    obtain g1 u1 where a: "a = (g1, u1)" by (cases a)
    from Some a g Cons.IH [of "Suc i" m u] Cons.IH [of "Suc i" "m @ [f (map h g1)]" u1]
    show ?thesis by simp
  qed
qed

lemma merge_loop_perm:
  assumes sym: "symp P" and perm: "mset xs = mset ys"
    and f: "\<And>g g'. mset g = mset g' \<Longrightarrow> f g = f g'"
  shows "\<exists>gx gy.
           merge_loop P (\<lambda>grp. grp) xs 0 xs ([], replicate (length xs) False) = Some gx \<and>
           merge_loop P (\<lambda>grp. grp) ys 0 ys ([], replicate (length ys) False) = Some gy \<and>
           mset (map f gx) = mset (map f gy)"
proof -
  let ?P = "\<lambda>a b. P (fst a) (fst b)"
  let ?n = "length xs"
  define tx where "tx = zip xs [0..<?n]"
  have len: "length ys = ?n" using perm by (metis mset_eq_length)
  obtain idx where idx: "length idx = length ys" "mset (zip ys idx) = mset (zip xs [0..<?n])"
    using ex_mset_zip_left [of xs "[0..<?n]" ys] perm by auto
  define ty where "ty = zip ys idx"
  have fx: "map fst tx = xs" and fy: "map fst ty = ys"
    using idx(1) by (simp_all add: tx_def ty_def)
  have lx: "length tx = ?n" and ly: "length ty = length ys"
    using idx(1) by (simp_all add: tx_def ty_def)
  have dx: "distinct tx" unfolding tx_def by (rule distinct_zipI2) simp
  have mt: "mset ty = mset tx" using idx(2) by (simp add: tx_def ty_def)
  then have dy: "distinct ty" using dx by (metis mset_eq_imp_distinct_iff)
  have same: "set tx = set ty" using mt by (metis mset_eq_setD)
  have symP: "symp ?P" using sym by (auto simp: symp_def)
  obtain hx where hx: "merge_loop ?P (\<lambda>grp. grp) tx 0 tx ([], replicate (length tx) False) = Some hx"
    using merge_loop_total [of 0 tx "replicate (length tx) False" tx ?P "\<lambda>grp. grp" "[]"] by auto
  obtain hy where hy: "merge_loop ?P (\<lambda>grp. grp) ty 0 ty ([], replicate (length ty) False) = Some hy"
    using merge_loop_total [of 0 ty "replicate (length ty) False" ty ?P "\<lambda>grp. grp" "[]"] by auto
  have f': "f (map fst g) = f (map fst g')" if "distinct g" "distinct g'" "set g = set g'"
    for g g' :: "('a \<times> nat) list"
  proof -
    from that have "mset g = mset g'" by (simp add: set_eq_iff_mset_eq_distinct)
    then have "mset (map fst g) = mset (map fst g')" by simp
    then show ?thesis by (rule f)
  qed
  have ms: "mset (map (\<lambda>g. f (map fst g)) hx) = mset (map (\<lambda>g. f (map fst g)) hy)"
    by (rule merge_loop_same_set [OF symP dx dy same hx hy f'])
  have "merge_loop P (\<lambda>grp. grp) (map fst tx) 0 (map fst tx) ([], replicate (length tx) False)
        = merge_loop ?P (\<lambda>g. map fst g) tx 0 tx ([], replicate (length tx) False)"
    by (rule merge_loop_map)
  also have "\<dots> = map_option (map (map fst)) (merge_loop ?P (\<lambda>grp. grp) tx 0 tx
                       ([], replicate (length tx) False))"
    using merge_loop_map_f [of ?P "map fst" tx 0 tx "[]"] by simp
  finally have gx: "merge_loop P (\<lambda>grp. grp) xs 0 xs ([], replicate ?n False)
                    = Some (map (map fst) hx)"
    using hx fx lx by simp
  have "merge_loop P (\<lambda>grp. grp) (map fst ty) 0 (map fst ty) ([], replicate (length ty) False)
        = merge_loop ?P (\<lambda>g. map fst g) ty 0 ty ([], replicate (length ty) False)"
    by (rule merge_loop_map)
  also have "\<dots> = map_option (map (map fst)) (merge_loop ?P (\<lambda>grp. grp) ty 0 ty
                       ([], replicate (length ty) False))"
    using merge_loop_map_f [of ?P "map fst" ty 0 ty "[]"] by simp
  finally have gy: "merge_loop P (\<lambda>grp. grp) ys 0 ys ([], replicate (length ys) False)
                    = Some (map (map fst) hy)"
    using hy fy ly by simp
  have "mset (map f (map (map fst) hx)) = mset (map f (map (map fst) hy))"
    using ms by (simp add: comp_def)
  with gx gy show ?thesis by blast
qed

lemma bounding_box_mset:
  assumes "mset g = mset g'"
  shows "bounding_box g = bounding_box g'"
proof -
  from assms have "set g = set g'" by (rule mset_eq_setD)
  then show ?thesis by (simp add: bounding_box_def)
qed

text \<open>
  Claim C5.  For every list of rectangles, every reordering of it and all thresholds,
  \<open>merge_nearby_rectangles\<close> forms the same collection of groups on both: the multiset
  of the groups' bounding boxes is the same, also when each bounding box is taken together
  with the number of members of its group.  A repeated run on the same list is the case of
  the trivial reordering.
\<close>

theorem C5_order_independent:
  assumes "mset rectangles = mset reordered"
  shows "\<exists>gx gy.
           merge_groups rectangles h v = Some gx \<and> merge_groups reordered h v = Some gy \<and>
           merge_nearby_rectangles rectangles h v = Some (map bounding_box gx) \<and>
           merge_nearby_rectangles reordered h v = Some (map bounding_box gy) \<and>
           mset (map bounding_box gx) = mset (map bounding_box gy) \<and>
           mset (map (\<lambda>grp. (bounding_box grp, length grp)) gx)
             = mset (map (\<lambda>grp. (bounding_box grp, length grp)) gy)"
proof (cases "rectangles = []")
  case True
  with assms have "reordered = []" by simp
  with True show ?thesis by (simp add: merge_groups_def merge_nearby_rectangles_def)
next
  case False
  with assms have ne: "reordered \<noteq> []" by auto
  let ?P = "\<lambda>group_rect rect2. rectangles_should_merge group_rect rect2 h v"
  let ?f = "\<lambda>grp. (bounding_box grp, length grp)"
  have sym: "symp ?P" by (simp add: symp_def rectangles_should_merge_sym)
  have perm: "mset (to_corners rectangles) = mset (to_corners reordered)"
    using assms by (simp add: to_corners_def)
  have f: "?f g = ?f g'" if "mset g = mset g'" for g g'
    using that bounding_box_mset [OF that] by (metis mset_eq_length)
  from merge_loop_perm [of ?P "to_corners rectangles" "to_corners reordered" ?f, OF sym perm f]
  obtain gx gy where
    gx: "merge_loop ?P (\<lambda>grp. grp) (to_corners rectangles) 0 (to_corners rectangles)
           ([], replicate (length (to_corners rectangles)) False) = Some gx" and
    gy: "merge_loop ?P (\<lambda>grp. grp) (to_corners reordered) 0 (to_corners reordered)
           ([], replicate (length (to_corners reordered)) False) = Some gy" and
    ms: "mset (map ?f gx) = mset (map ?f gy)"
    by blast
  from gx False have 1: "merge_groups rectangles h v = Some gx"
    by (simp add: merge_groups_def Let_def)
  from gy ne have 2: "merge_groups reordered h v = Some gy"
    by (simp add: merge_groups_def Let_def)
  have "image_mset fst (mset (map ?f gx)) = image_mset fst (mset (map ?f gy))"
    using ms by simp
  then have 3: "mset (map bounding_box gx) = mset (map bounding_box gy)"
    by (simp add: image_mset.compositionality comp_def)
  from 1 2 3 ms show ?thesis
    by (simp add: merge_nearby_rectangles_groups)
qed

theorem C5_order_independent_witness:
  "mset [(0, 0, 10, 10), (200, 0, 10, 10), (25, 0, 10, 10)]
     = mset [(200, 0, 10, 10), (25, 0, 10, 10), (0, 0, 10, 10)]
   \<and> merge_nearby_rectangles [(0, 0, 10, 10), (200, 0, 10, 10), (25, 0, 10, 10)] 20 30
       = Some [(0, 0, 35, 10), (200, 0, 10, 10)]
   \<and> merge_nearby_rectangles [(200, 0, 10, 10), (25, 0, 10, 10), (0, 0, 10, 10)] 20 30
       = Some [(200, 0, 10, 10), (0, 0, 35, 10)]
   \<and> merge_groups [(0, 0, 10, 10), (200, 0, 10, 10), (25, 0, 10, 10)] 20 30
       = Some [[(0, 0, 10, 10), (25, 0, 35, 10)], [(200, 0, 210, 10)]]
   \<and> merge_groups [(200, 0, 10, 10), (25, 0, 10, 10), (0, 0, 10, 10)] 20 30
       = Some [[(200, 0, 210, 10)], [(25, 0, 35, 10), (0, 0, 10, 10)]]"
proof -
  have perm: "mset [(0, 0, 10, 10), (200, 0, 10, 10), (25, 0, 10, 10)]
     = mset [(200, 0, 10, 10), (25, 0, 10, 10), (0::int, 0::int, 10::int, 10::int)]"
    by (simp add: add_mset_commute)
  have runs: "merge_nearby_rectangles [(0, 0, 10, 10), (200, 0, 10, 10), (25, 0, 10, 10)] 20 30
       = Some [(0, 0, 35, 10), (200, 0, 10, 10)]"
    "merge_nearby_rectangles [(200, 0, 10, 10), (25, 0, 10, 10), (0, 0, 10, 10)] 20 30
       = Some [(200, 0, 10, 10), (0, 0, 35, 10)]"
    "merge_groups [(0, 0, 10, 10), (200, 0, 10, 10), (25, 0, 10, 10)] 20 30
       = Some [[(0, 0, 10, 10), (25, 0, 35, 10)], [(200, 0, 210, 10)]]"
    "merge_groups [(200, 0, 10, 10), (25, 0, 10, 10), (0, 0, 10, 10)] 20 30
       = Some [[(200, 0, 210, 10)], [(25, 0, 35, 10), (0, 0, 10, 10)]]"
    by (simp_all add: merge_nearby_rectangles_def merge_groups_def to_corners_def bounding_box_def
        rectangles_should_merge_def grow.simps Let_def)
  from C5_order_independent [OF perm, of 20 30]
  have "mset (map bounding_box [[(0, 0, 10, 10), (25, 0, 35, 10)], [(200, 0, 210, 10)]])
        = mset (map bounding_box [[(200, 0, 210, 10)], [(25, 0, 35, 10), (0, 0, 10, 10)]])"
    unfolding runs by simp
  with perm runs show ?thesis by simp
qed

end
